theory Spec2Isabelle
  imports
    Main
    "HOL-Library.Char_ord"
    "HOL-Library.List_Lexorder"
    "HOL-Library.Product_Lexorder"
    "HOL-Library.Sublist"
begin

section \<open>Shinju: the tree walker and the content matcher of \<open>src/shinju.py\<close>\<close>

text \<open>
  The theory embeds \<open>is_binary_file\<close>, \<open>search_file\<close>, \<open>format_entry\<close>,
  \<open>walk_tree\<close> and the pre-flight check of \<open>main\<close>.

  Modelling decisions, each visible in the definitions below:
  \<^item> A Python \<open>str\<close> is the \<open>string\<close> (a \<open>char list\<close>) of its UTF-8 bytes.
    Splitting, searching for a literal and comparing work on the bytes as they do on
    the code points; lengths and slices count code points, not bytes.
  \<^item> \<open>str.lower\<close>, \<open>str.strip\<close> and literal matching under \<open>re.IGNORECASE\<close> follow
    Unicode. On text that is all ASCII they are written out here; on any other text
    they are operations of the Python runtime, taken as parameters like \<open>re.compile\<close>,
    so that nothing is claimed about them that Python may not do.
  \<^item> The file system is a finite tree of nodes, read once: a directory carries the
    result of listing it, a file the results of reading it in binary and in text mode.
    A finite tree has no symlink cycles.
  \<^item> Python's \<open>re.compile\<close> on a regular expression is the parameter
    \<open>re_compile\<close> of the runtime: compiling a pattern either fails (\<open>re.error\<close>,
    the value \<open>None\<close>) or gives a compiled pattern with its \<open>findall\<close> and
    \<open>search\<close>. A pattern passed through \<open>re.escape\<close> is compiled here, to the
    literal matcher \<open>literal_pattern\<close>.
  \<^item> Exceptions are values: \<open>walk_tree\<close> returns \<open>error + (lines \<times> stats)\<close>.
\<close>

subsection \<open>Strings\<close>

definition lower_char :: "char \<Rightarrow> char" where
  "lower_char c =
     (let n = (of_char c :: nat) in if 65 \<le> n \<and> n \<le> 90 then char_of (n + 32) else c)"

definition is_ascii :: "string \<Rightarrow> bool" where
  "is_ascii s = list_all (\<lambda>c. (of_char c :: nat) < 128) s"

text \<open>\<open>s.lower()\<close> of an ASCII string: only A to Z change.\<close>

definition ascii_lower :: "string \<Rightarrow> string" where
  "ascii_lower s = map lower_char s"

text \<open>The whitespace of ASCII, as \<open>str.isspace\<close> has it.\<close>

definition is_space :: "char \<Rightarrow> bool" where
  "is_space c = (let n = (of_char c :: nat) in (9 \<le> n \<and> n \<le> 13) \<or> (28 \<le> n \<and> n \<le> 32))"

text \<open>\<open>s.strip()\<close> of an ASCII string.\<close>

definition ascii_strip :: "string \<Rightarrow> string" where
  "ascii_strip s = rev (dropWhile is_space (rev (dropWhile is_space s)))"

text \<open>
  Code points in UTF-8: every byte but a continuation byte (\<open>0x80\<close> to \<open>0xBF\<close>) starts
  one. \<open>cp_length\<close> is \<open>len(s)\<close> and \<open>cp_take n\<close> is \<open>s[:n]\<close>.
\<close>

definition is_continuation :: "char \<Rightarrow> bool" where
  "is_continuation c = (let n = (of_char c :: nat) in 128 \<le> n \<and> n < 192)"

definition cp_length :: "string \<Rightarrow> nat" where
  "cp_length s = length (filter (\<lambda>c. \<not> is_continuation c) s)"

fun cp_take :: "nat \<Rightarrow> string \<Rightarrow> string" where
  "cp_take n [] = []"
| "cp_take n (c # cs) =
     (if is_continuation c then c # cp_take n cs
      else (case n of 0 \<Rightarrow> [] | Suc m \<Rightarrow> c # cp_take m cs))"

text \<open>\<open>s.split(d)\<close>: the pieces between the separators; never the empty list.\<close>

fun split_on :: "char \<Rightarrow> string \<Rightarrow> string list" where
  "split_on d [] = [[]]"
| "split_on d (c # cs) =
     (if c = d then [] # split_on d cs
      else (case split_on d cs of [] \<Rightarrow> [[c]] | p # ps \<Rightarrow> (c # p) # ps))"

text \<open>\<open>sep.join(pieces)\<close>\<close>

fun join :: "string \<Rightarrow> string list \<Rightarrow> string" where
  "join sep [] = []"
| "join sep [x] = x"
| "join sep (x # y # ys) = x @ sep @ join sep (y # ys)"

text \<open>\<open>s.rfind(c)\<close>: the index of the last occurrence, \<open>None\<close> for Python's -1.\<close>

fun rfind :: "char \<Rightarrow> string \<Rightarrow> nat option" where
  "rfind c [] = None"
| "rfind c (x # xs) =
     (case rfind c xs of Some i \<Rightarrow> Some (Suc i)
      | None \<Rightarrow> if x = c then Some 0 else None)"

text \<open>
  \<open>PurePath.suffix\<close> of a final path component:
  \<^verbatim>\<open>i = name.rfind('.'); return name[i:] if 0 < i < len(name) - 1 else ''\<close>
\<close>

definition path_suffix :: "string \<Rightarrow> string" where
  "path_suffix nm =
     (case rfind (CHR ''.'') nm of
        None \<Rightarrow> []
      | Some i \<Rightarrow> if 0 < i \<and> i + 1 < length nm then drop i nm else [])"

text \<open>\<open>f.readlines()\<close> on the decoded text: every line keeps its newline.\<close>

fun readlines :: "string \<Rightarrow> string list" where
  "readlines [] = []"
| "readlines (c # cs) =
     (if c = CHR 0x0A then [c] # readlines cs
      else (case readlines cs of [] \<Rightarrow> [[c]] | l # ls \<Rightarrow> (c # l) # ls))"

text \<open>The decimal numeral of a natural number, as an f-string prints an \<open>int\<close>.\<close>

fun show_nat :: "nat \<Rightarrow> string" where
  "show_nat n =
     (if n < 10 then [char_of (48 + n)]
      else show_nat (n div 10) @ [char_of (48 + n mod 10)])"

subsection \<open>Constants\<close>

definition ESC :: string where "ESC = [CHR 0x1B]"
definition RESET :: string where "RESET = ESC @ ''[0m''"
definition BOLD :: string where "BOLD = ESC @ ''[1m''"
definition MAGENTA :: string where "MAGENTA = ESC @ ''[35m''"
definition CYAN :: string where "CYAN = ESC @ ''[36m''"
definition YELLOW :: string where "YELLOW = ESC @ ''[33m''"
definition GREEN :: string where "GREEN = ESC @ ''[32m''"
definition BLUE :: string where "BLUE = ESC @ ''[34m''"
definition DIM :: string where "DIM = ESC @ ''[2m''"

definition BRANCH :: string where
  "BRANCH = [CHR 0xE2, CHR 0x94, CHR 0x9C, CHR 0xE2, CHR 0x94, CHR 0x80,
             CHR 0xE2, CHR 0x94, CHR 0x80, CHR 0x20]"
definition LAST_BRANCH :: string where
  "LAST_BRANCH = [CHR 0xE2, CHR 0x94, CHR 0x94, CHR 0xE2, CHR 0x94, CHR 0x80,
                  CHR 0xE2, CHR 0x94, CHR 0x80, CHR 0x20]"
definition PIPE :: string where
  "PIPE = [CHR 0xE2, CHR 0x94, CHR 0x82, CHR 0x20, CHR 0x20, CHR 0x20]"
definition SPACE :: string where
  "SPACE = ''    ''"

definition EXCLUDE_EXTENSIONS :: "string list" where
  "EXCLUDE_EXTENSIONS =
     [''gz'', ''zip'', ''tar'', ''rar'', ''7z'', ''bz2'', ''xz'',
      ''deb'', ''img'', ''iso'', ''vmdk'', ''dll'', ''ovf'', ''ova'']"

subsection \<open>The file system\<close>

text \<open>
  A file carries what \<open>open(path, "rb").read()\<close> and the text-mode
  \<open>open(path, "r", encoding="utf-8", errors="ignore").read()\<close> give; a directory what
  \<open>iterdir()\<close> gives, in the order the operating system returns it. \<open>None\<close> is the
  failure of the call: \<open>IOError\<close>/\<open>OSError\<close> for a file, \<open>PermissionError\<close> for a
  directory.
\<close>

datatype node =
    is_file: File (entry_name: string) (raw_bytes: "string option") (decoded: "string option")
  | is_dir: Dir (entry_name: string) (listing: "node list option")

definition read_bytes :: "node \<Rightarrow> string option" where
  "read_bytes p = (case p of File _ bs _ \<Rightarrow> bs | Dir _ _ \<Rightarrow> None)"

definition read_text :: "node \<Rightarrow> string option" where
  "read_text p = (case p of File _ _ t \<Rightarrow> t | Dir _ _ \<Rightarrow> None)"

subsection \<open>Regular expressions\<close>

record pattern =
  findall :: "string \<Rightarrow> string list"
  search :: "string \<Rightarrow> bool"

text \<open>
  What the model takes from the Python runtime: \<open>re.compile(p, flags)\<close> on a regular
  expression, and, for text that is not all ASCII, \<open>s.lower()\<close>, \<open>s.strip()\<close> and
  the pattern \<open>re.compile(re.escape(k), re.IGNORECASE)\<close>.
\<close>

record python =
  re_compile :: "string \<Rightarrow> bool \<Rightarrow> pattern option"
  unicode_lower :: "string \<Rightarrow> string"
  unicode_strip :: "string \<Rightarrow> string"
  unicode_literal :: "string \<Rightarrow> pattern"

text \<open>\<open>s.lower()\<close> and \<open>s.strip()\<close>\<close>

definition lower :: "python \<Rightarrow> string \<Rightarrow> string" where
  "lower py s = (if is_ascii s then ascii_lower s else unicode_lower py s)"

definition strip :: "python \<Rightarrow> string \<Rightarrow> string" where
  "strip py s = (if is_ascii s then ascii_strip s else unicode_strip py s)"

text \<open>
  Matching a literal, with the letters of ASCII folded when \<open>ic\<close> is set. With
  \<open>ic\<close> unset this is the matching of \<open>re.escape(k)\<close> on any text; with \<open>ic\<close> set
  it is used on ASCII keywords and ASCII text only (see \<open>literal_pattern\<close>).
\<close>

definition fold_case :: "bool \<Rightarrow> string \<Rightarrow> string" where
  "fold_case ic s = (if ic then ascii_lower s else s)"

text \<open>The literal \<open>k\<close> matches at the start of \<open>s\<close>.\<close>

definition matches_at :: "bool \<Rightarrow> string \<Rightarrow> string \<Rightarrow> bool" where
  "matches_at ic k s =
     (length k \<le> length s \<and> fold_case ic (take (length k) s) = fold_case ic k)"

text \<open>
  \<open>re.compile(re.escape(k), flags).findall(s)\<close>: the matched texts, scanning from the
  left and resuming after each match. The empty pattern matches at each of the
  \<open>len(s) + 1\<close> positions.
\<close>

function findall_literal :: "bool \<Rightarrow> string \<Rightarrow> string \<Rightarrow> string list" where
  "findall_literal ic k s =
     (if k = [] then replicate (Suc (cp_length s)) []
      else if s = [] then []
      else if matches_at ic k s
        then take (length k) s # findall_literal ic k (drop (length k) s)
      else findall_literal ic k (tl s))"
  by pat_completeness auto
termination
  by (relation "measure (\<lambda>(ic, k, s). length s)") auto

declare findall_literal.simps [simp del]

fun search_literal :: "bool \<Rightarrow> string \<Rightarrow> string \<Rightarrow> bool" where
  "search_literal ic k [] = (k = [])"
| "search_literal ic k (c # s) = (matches_at ic k (c # s) \<or> search_literal ic k s)"

text \<open>
  \<open>re.compile(re.escape(k), flags)\<close>. Without \<open>re.IGNORECASE\<close> the pattern matches
  the text \<open>k\<close>. With it, the letters of ASCII are folded when the keyword and the
  text searched are both ASCII, and the pattern is the runtime's otherwise.
\<close>

definition literal_pattern :: "python \<Rightarrow> bool \<Rightarrow> string \<Rightarrow> pattern" where
  "literal_pattern py ic k =
     (if ic then
        \<lparr>findall = (\<lambda>s. if is_ascii k \<and> is_ascii s then findall_literal True k s
                         else findall (unicode_literal py k) s),
         search = (\<lambda>s. if is_ascii k \<and> is_ascii s then search_literal True k s
                        else search (unicode_literal py k) s)\<rparr>
      else \<lparr>findall = findall_literal False k, search = search_literal False k\<rparr>)"

text \<open>\<open>re.compile(p if is_regex else re.escape(p), flags)\<close>\<close>

definition compile_pattern :: "python \<Rightarrow> bool \<Rightarrow> bool \<Rightarrow> string \<Rightarrow> pattern option" where
  "compile_pattern py is_regex ignore_case p =
     (if is_regex then re_compile py p ignore_case else Some (literal_pattern py ignore_case p))"

subsection \<open>The content matcher\<close>

definition is_binary_file :: "node \<Rightarrow> bool" where
  "is_binary_file filepath =
     (case read_bytes filepath of
        None \<Rightarrow> True
      | Some bs \<Rightarrow> CHR 0x00 \<in> set (take 1024 bs))"

definition extension :: "python \<Rightarrow> node \<Rightarrow> string" where
  "extension py filepath =
     lower py (dropWhile (\<lambda>c. c = CHR ''.'') (path_suffix (entry_name filepath)))"

text \<open>\<open>[p.strip() for p in pattern.split(",") if p.strip()]\<close>\<close>

definition split_keywords :: "python \<Rightarrow> string \<Rightarrow> string list" where
  "split_keywords py p =
     map (strip py) (filter (\<lambda>x. strip py x \<noteq> []) (split_on (CHR '','') p))"

text \<open>The loop that fills \<open>compiled_patterns\<close>; the first \<open>re.error\<close> ends it.\<close>

fun compile_all :: "python \<Rightarrow> bool \<Rightarrow> bool \<Rightarrow> string list \<Rightarrow> pattern list option" where
  "compile_all py is_regex ignore_case [] = Some []"
| "compile_all py is_regex ignore_case (p # ps) =
     (case compile_pattern py is_regex ignore_case p of
        None \<Rightarrow> None
      | Some c \<Rightarrow>
          (case compile_all py is_regex ignore_case ps of
             None \<Rightarrow> None
           | Some cs \<Rightarrow> Some (c # cs)))"

definition make_snippet :: "python \<Rightarrow> string \<Rightarrow> string \<Rightarrow> string" where
  "make_snippet py first_match line =
     (let line_stripped = strip py line;
          line_stripped = (if cp_length line_stripped > 50
                           then cp_take 50 line_stripped @ ''...''
                           else line_stripped)
      in ''['' @ [CHR 0x27] @ first_match @ [CHR 0x27] @ '' => '' @
         [CHR 0x27] @ line_stripped @ [CHR 0x27] @ '']'')"

text \<open>The inner loop, over the compiled patterns on one line.\<close>

fun scan_line ::
  "python \<Rightarrow> pattern list \<Rightarrow> string \<Rightarrow> nat \<times> string \<Rightarrow> nat \<times> string" where
  "scan_line py [] line (match_count, first_snippet) = (match_count, first_snippet)"
| "scan_line py (compiled_pattern # rest) line (match_count, first_snippet) =
     (case findall compiled_pattern line of
        [] \<Rightarrow> scan_line py rest line (match_count, first_snippet)
      | first_match # others \<Rightarrow>
          scan_line py rest line
            (match_count + length (first_match # others),
             if first_snippet = [] then make_snippet py first_match line else first_snippet))"

text \<open>The outer loop, over the lines.\<close>

fun scan_lines ::
  "python \<Rightarrow> pattern list \<Rightarrow> string list \<Rightarrow> nat \<times> string \<Rightarrow> nat \<times> string" where
  "scan_lines py compiled_patterns [] acc = acc"
| "scan_lines py compiled_patterns (line # lines) acc =
     scan_lines py compiled_patterns lines (scan_line py compiled_patterns line acc)"

definition search_file ::
  "python \<Rightarrow> node \<Rightarrow> string \<Rightarrow> bool \<Rightarrow> bool \<Rightarrow> nat \<times> string" where
  "search_file py filepath pat is_regex ignore_case =
     (if extension py filepath \<in> set EXCLUDE_EXTENSIONS then (0, [])
      else if is_binary_file filepath then (0, [])
      else
        (case read_text filepath of
           None \<Rightarrow> (0, [])
         | Some txt \<Rightarrow>
             (let lines = readlines txt;
                  patterns = (if is_regex then [pat] else split_keywords py pat)
              in case compile_all py is_regex ignore_case patterns of
                   None \<Rightarrow> (0, [])
                 | Some compiled_patterns \<Rightarrow>
                     scan_lines py compiled_patterns lines (0, []))))"

subsection \<open>Formatting\<close>

definition format_entry :: "string \<Rightarrow> bool \<Rightarrow> nat \<Rightarrow> string \<Rightarrow> bool \<Rightarrow> bool \<Rightarrow> string" where
  "format_entry nm is_d match_count snippet name_matched search_active =
     (if name_matched \<and> match_count > 0 then
        GREEN @ BOLD @ nm @ (if is_d then ''/'' else []) @ RESET @ '' '' @
        CYAN @ snippet @ RESET
      else if name_matched then
        GREEN @ BOLD @ nm @ (if is_d then ''/'' else []) @ RESET @ '' '' @
        YELLOW @ ''[match]'' @ RESET
      else if is_d then
        BLUE @ BOLD @ nm @ ''/'' @ RESET
      else if match_count > 0 then
        MAGENTA @ BOLD @ nm @ RESET @ '' '' @
        YELLOW @ ''['' @ show_nat match_count @ '' '' @
          (if match_count = 1 then ''match'' else ''matches'') @ '']'' @ RESET @ '' '' @
        CYAN @ snippet @ RESET
      else if search_active then
        DIM @ nm @ RESET
      else nm)"

subsection \<open>The tree walker\<close>

text \<open>The arguments that \<open>walk_tree\<close> hands down unchanged at every level.\<close>

record config =
  show_hidden :: bool
  dirs_only :: bool
  max_depth :: "int option"
  search_pattern :: "string option"
  name_pattern :: "string option"
  is_regex :: bool
  ignore_case :: bool
  match_only :: bool

record stats =
  dirs :: nat
  files :: nat
  name_matches :: nat
  content_matches :: nat

definition zero_stats :: stats where
  "zero_stats = \<lparr>dirs = 0, files = 0, name_matches = 0, content_matches = 0\<rparr>"

text \<open>
  The exceptions that leave a function: \<open>re.error\<close> from an unguarded
  \<open>re.compile\<close>, \<open>NotADirectoryError\<close> from \<open>iterdir()\<close> on a file, and
  \<open>sys.exit(1)\<close>.
\<close>

datatype error = Re_error | Not_a_directory_error | System_exit

text \<open>\<open>sorted(directory.iterdir(), key=lambda e: (not e.is_dir(), e.name.lower()))\<close>\<close>

definition entry_key :: "python \<Rightarrow> node \<Rightarrow> bool \<times> string" where
  "entry_key py e = (\<not> is_dir e, lower py (entry_name e))"

definition is_hidden :: "node \<Rightarrow> bool" where
  "is_hidden e = (case entry_name e of [] \<Rightarrow> False | c # _ \<Rightarrow> c = CHR ''.'')"

text \<open>The entries the loop runs over: sorted, then the two filters.\<close>

definition list_entries :: "python \<Rightarrow> config \<Rightarrow> node list \<Rightarrow> node list" where
  "list_entries py cfg children =
     (let entries = sort_key (entry_key py) children;
          entries = (if \<not> show_hidden cfg then filter (\<lambda>e. \<not> is_hidden e) entries else entries);
          entries = (if dirs_only cfg then filter is_dir entries else entries)
      in entries)"

text \<open>The file name search of one entry; its \<open>re.compile\<close> is not guarded.\<close>

definition name_search :: "python \<Rightarrow> config \<Rightarrow> string \<Rightarrow> error + bool" where
  "name_search py cfg nm =
     (case name_pattern cfg of
        None \<Rightarrow> Inr False
      | Some p \<Rightarrow>
          if p = [] then Inr False
          else
            (case compile_pattern py (is_regex cfg) (ignore_case cfg) p of
               None \<Rightarrow> Inl Re_error
             | Some compiled \<Rightarrow> Inr (search compiled nm)))"

text \<open>The file content search of one entry: \<open>if search_pattern and not is_dir\<close>.\<close>

definition content_search :: "python \<Rightarrow> config \<Rightarrow> node \<Rightarrow> nat \<times> string" where
  "content_search py cfg entry =
     (case search_pattern cfg of
        None \<Rightarrow> (0, [])
      | Some p \<Rightarrow>
          if p \<noteq> [] \<and> \<not> is_dir entry
          then search_file py entry p (is_regex cfg) (ignore_case cfg)
          else (0, []))"

definition search_active :: "config \<Rightarrow> bool" where
  "search_active cfg = (search_pattern cfg \<noteq> None \<or> name_pattern cfg \<noteq> None)"

definition depth_cutoff :: "config \<Rightarrow> int \<Rightarrow> bool" where
  "depth_cutoff cfg current_depth =
     (case max_depth cfg of None \<Rightarrow> False | Some m \<Rightarrow> current_depth \<ge> m)"

lemma size_insort_key: "size_list f (insort_key k x xs) = Suc (f x + size_list f xs)"
  by (induction xs) auto

lemma size_sort_key: "size_list f (sort_key k xs) = size_list f xs"
  by (induction xs) (auto simp: size_insort_key)

lemma size_filter_le: "size_list f (filter P xs) \<le> size_list f xs"
  by (induction xs) auto

lemma size_list_entries: "size_list f (list_entries py cfg cs) \<le> size_list f cs"
proof -
  have a: "size_list f (filter P (sort_key k cs)) \<le> size_list f cs" for P and k :: "node \<Rightarrow> bool \<times> string"
    using size_filter_le [of f P "sort_key k cs"] by (simp add: size_sort_key)
  have b: "size_list f (filter Q (filter P (sort_key k cs))) \<le> size_list f cs"
    for P Q and k :: "node \<Rightarrow> bool \<times> string"
    using size_filter_le [of f Q "filter P (sort_key k cs)"] a [of P k] by linarith
  show ?thesis
    unfolding list_entries_def Let_def
    using a b by (simp add: size_sort_key)
qed

text \<open>
  \<open>walk_tree\<close>, and its \<open>for\<close> loop as \<open>walk_entries\<close>: the entries still to
  visit, and the \<open>lines\<close> and \<open>stats\<close> built so far. The entry is the last one
  (\<open>i == len(entries) - 1\<close>) when no entry follows it.
\<close>

function (sequential)
  walk_tree :: "python \<Rightarrow> config \<Rightarrow> string \<Rightarrow> int \<Rightarrow> node \<Rightarrow> error + (string list \<times> stats)"
  and walk_entries ::
    "python \<Rightarrow> config \<Rightarrow> string \<Rightarrow> int \<Rightarrow> node list \<Rightarrow> string list \<Rightarrow> stats
      \<Rightarrow> error + (string list \<times> stats)"
where
  "walk_tree py cfg pfx current_depth directory =
     (if depth_cutoff cfg current_depth then Inr ([], zero_stats)
      else
        (case directory of
           File _ _ _ \<Rightarrow> Inl Not_a_directory_error
         | Dir _ None \<Rightarrow> Inr ([pfx @ DIM @ ''[permission denied]'' @ RESET], zero_stats)
         | Dir _ (Some children) \<Rightarrow>
             walk_entries py cfg pfx current_depth (list_entries py cfg children)
               [] zero_stats))"
| "walk_entries py cfg pfx current_depth [] lines stats = Inr (lines, stats)"
| "walk_entries py cfg pfx current_depth (entry # rest) lines stats =
     (let is_last = (rest = []);
          branch = (if is_last then LAST_BRANCH else BRANCH);
          next_prefix = pfx @ (if is_last then SPACE else PIPE);
          is_d = is_dir entry;
          stats = (if is_d then stats\<lparr>dirs := dirs stats + 1\<rparr>
                   else stats\<lparr>files := files stats + 1\<rparr>)
      in case name_search py cfg (entry_name entry) of
           Inl err \<Rightarrow> Inl err
         | Inr name_matched \<Rightarrow>
             (let stats = (if name_matched then stats\<lparr>name_matches := name_matches stats + 1\<rparr>
                           else stats);
                  found = content_search py cfg entry;
                  match_count = fst found;
                  snippet = snd found;
                  stats = (if match_count > 0
                           then stats\<lparr>content_matches := content_matches stats + 1\<rparr>
                           else stats);
                  formatted_name = format_entry (entry_name entry) is_d match_count snippet
                                     name_matched (search_active cfg)
              in if is_d then
                   (case walk_tree py cfg next_prefix (current_depth + 1) entry of
                      Inl err \<Rightarrow> Inl err
                    | Inr (sub_lines, sub_stats) \<Rightarrow>
                        (let has_matches = (name_matches sub_stats > 0
                                            \<or> content_matches sub_stats > 0 \<or> name_matched);
                             lines = (if \<not> match_only cfg \<or> has_matches
                                      then lines @ [pfx @ branch @ formatted_name] @ sub_lines
                                      else lines);
                             stats = stats\<lparr>dirs := dirs stats + dirs sub_stats,
                                           files := files stats + files sub_stats,
                                           name_matches := name_matches stats + name_matches sub_stats,
                                           content_matches :=
                                             content_matches stats + content_matches sub_stats\<rparr>
                         in walk_entries py cfg pfx current_depth rest lines stats))
                 else
                   (let has_match = (name_matched \<or> match_count > 0);
                        lines = (if \<not> match_only cfg \<or> has_match
                                 then lines @ [pfx @ branch @ formatted_name]
                                 else lines)
                    in walk_entries py cfg pfx current_depth rest lines stats)))"
  by pat_completeness auto
termination
proof (relation "measure (\<lambda>x. case x of
           Inl (_, _, _, _, d) \<Rightarrow> 2 * size d + 1
         | Inr (_, _, _, _, es, _, _) \<Rightarrow> 2 * size_list size es)", goal_cases)
  case 1
  show ?case by simp
next
  case (2 py cfg pfx current_depth directory x21 x22 children)
  then show ?case
    using size_list_entries [of size py cfg children] by simp
next
  case 3
  then show ?case by simp
next
  case 4
  then show ?case by simp
next
  case 5
  then show ?case by simp
qed

declare walk_tree.simps [simp del]
declare walk_entries.simps(2) [simp del]

text \<open>
  \<open>main\<close> after argument parsing: the two checks of the directory, the pre-flight
  check of the pattern \<open>args.search or args.name\<close>, then \<open>print_tree\<close>, which calls
  \<open>walk_tree\<close> with the empty prefix at depth 0 and prints what it returns.
\<close>

definition main :: "python \<Rightarrow> config \<Rightarrow> node \<Rightarrow> error + (string list \<times> stats)" where
  "main py cfg directory =
     (if \<not> is_dir directory then Inl System_exit
      else
        (let search_to_validate =
               (case search_pattern cfg of
                  None \<Rightarrow> name_pattern cfg
                | Some s \<Rightarrow> if s = [] then name_pattern cfg else Some s)
         in if (case search_to_validate of
                  None \<Rightarrow> False
                | Some p \<Rightarrow> p \<noteq> [] \<and> is_regex cfg \<and> re_compile py p False = None)
            then Inl System_exit
            else walk_tree py cfg [] 0 directory))"

subsection \<open>One pass of the loop, and sums of statistics\<close>

text \<open>
  The loop body of \<open>walk_entries\<close> read as a function of the entry alone: the lines it
  appends and the statistics it adds. \<open>walk_entries_Cons\<close> below proves that this is
  what the loop does.
\<close>

definition add_stats :: "stats \<Rightarrow> stats \<Rightarrow> stats" where
  "add_stats a b =
     \<lparr>dirs = dirs a + dirs b, files = files a + files b,
      name_matches = name_matches a + name_matches b,
      content_matches = content_matches a + content_matches b\<rparr>"

definition sum_stats :: "stats list \<Rightarrow> stats" where
  "sum_stats xs = foldr add_stats xs zero_stats"

definition own_stats :: "bool \<Rightarrow> bool \<Rightarrow> nat \<Rightarrow> stats" where
  "own_stats is_d name_matched match_count =
     \<lparr>dirs = (if is_d then 1 else 0), files = (if is_d then 0 else 1),
      name_matches = (if name_matched then 1 else 0),
      content_matches = (if match_count > 0 then 1 else 0)\<rparr>"

definition entry_line :: "python \<Rightarrow> config \<Rightarrow> string \<Rightarrow> bool \<Rightarrow> node \<Rightarrow> bool \<Rightarrow> string" where
  "entry_line py cfg pfx is_last entry name_matched =
     pfx @ (if is_last then LAST_BRANCH else BRANCH) @
     format_entry (entry_name entry) (is_dir entry)
       (fst (content_search py cfg entry)) (snd (content_search py cfg entry))
       name_matched (search_active cfg)"

definition visit_entry ::
  "python \<Rightarrow> config \<Rightarrow> string \<Rightarrow> int \<Rightarrow> bool \<Rightarrow> node \<Rightarrow> error + (string list \<times> stats)" where
  "visit_entry py cfg pfx current_depth is_last entry =
     (case name_search py cfg (entry_name entry) of
        Inl err \<Rightarrow> Inl err
      | Inr name_matched \<Rightarrow>
          (let match_count = fst (content_search py cfg entry);
               line = entry_line py cfg pfx is_last entry name_matched
           in if is_dir entry then
                (case walk_tree py cfg (pfx @ (if is_last then SPACE else PIPE))
                        (current_depth + 1) entry of
                   Inl err \<Rightarrow> Inl err
                 | Inr (sub_lines, sub_stats) \<Rightarrow>
                     Inr (if \<not> match_only cfg \<or> name_matches sub_stats > 0
                             \<or> content_matches sub_stats > 0 \<or> name_matched
                          then line # sub_lines else [],
                          add_stats (own_stats True name_matched match_count) sub_stats))
              else
                Inr (if \<not> match_only cfg \<or> name_matched \<or> match_count > 0 then [line] else [],
                     own_stats False name_matched match_count)))"

subsection \<open>Concrete inputs\<close>

text \<open>
  An instance of the runtime, for running the walker on concrete ASCII inputs. A
  regular expression without metacharacters compiles to the literal matcher, which is
  what \<open>re.compile\<close> gives for it on ASCII text; every other pattern is rejected, as
  \<open>re.compile\<close> rejects the unbalanced \<open>(\<close>. Patterns with metacharacters that Python
  accepts, and text that is not ASCII, are outside this instance: there its
  operations are the ASCII ones.
\<close>

definition folding_pattern :: "bool \<Rightarrow> string \<Rightarrow> pattern" where
  "folding_pattern ic k = \<lparr>findall = findall_literal ic k, search = search_literal ic k\<rparr>"

definition is_meta :: "char \<Rightarrow> bool" where
  "is_meta c = (c \<in> set (''.^$*+?{}[]|()'' @ [CHR 0x5C]))"

definition plain_python :: python where
  "plain_python =
     \<lparr>re_compile = (\<lambda>p ic. if list_ex is_meta p then None else Some (folding_pattern ic p)),
      unicode_lower = ascii_lower,
      unicode_strip = ascii_strip,
      unicode_literal = folding_pattern True\<rparr>"

text \<open>The configuration of a run without options.\<close>

definition default_config :: config where
  "default_config =
     \<lparr>show_hidden = False, dirs_only = False, max_depth = None, search_pattern = None,
      name_pattern = None, is_regex = False, ignore_case = False, match_only = False\<rparr>"

definition text_file :: "string \<Rightarrow> string \<Rightarrow> node" where
  "text_file nm content = File nm (Some content) (Some content)"

definition sample_tree :: node where
  "sample_tree =
     Dir ''root''
       (Some [text_file ''Banana'' ''yellow'',
              text_file ''apple'' ''red'',
              text_file ''Cherry'' ''red'',
              Dir ''Zeta'' (Some [text_file ''notes.txt'' ''hello world'']),
              text_file ''.secret'' ''hidden''])"

text \<open>
  Two results in sequence: the first error wins, lines are appended and statistics
  added.
\<close>

definition append_results ::
  "error + (string list \<times> stats) \<Rightarrow> error + (string list \<times> stats)
     \<Rightarrow> error + (string list \<times> stats)" where
  "append_results v r =
     (case v of
        Inl err \<Rightarrow> Inl err
      | Inr (l1, s1) \<Rightarrow>
          (case r of Inl err \<Rightarrow> Inl err | Inr (l2, s2) \<Rightarrow> Inr (l1 @ l2, add_stats s1 s2)))"

text \<open>
  \<open>pruned_of r1 r2\<close>: both runs raise the same error, or both return, with the same
  statistics, and the lines of the first are a subsequence of the lines of the second.
\<close>

definition pruned_of ::
  "error + (string list \<times> stats) \<Rightarrow> error + (string list \<times> stats) \<Rightarrow> bool" where
  "pruned_of r1 r2 =
     (case r1 of
        Inl e1 \<Rightarrow> r2 = Inl e1
      | Inr (l1, s1) \<Rightarrow> (case r2 of Inl _ \<Rightarrow> False | Inr (l2, s2) \<Rightarrow> subseq l1 l2 \<and> s1 = s2))"

definition quiet_config :: config where
  "quiet_config = default_config\<lparr>search_pattern := Some ''zzz''\<rparr>"

definition hello_config :: config where
  "hello_config = default_config\<lparr>search_pattern := Some ''hello''\<rparr>"

definition hello_dirs_config :: config where
  "hello_dirs_config = default_config\<lparr>dirs_only := True, search_pattern := Some ''hello''\<rparr>"

subsection \<open>The aggregate, in the words of the specification\<close>

text \<open>
  An entry is counted when it is not hidden, or hidden entries are shown, and, under
  \<open>dirs_only\<close>, when it is a directory. The descendants of a directory reachable
  within a number of levels are its counted children and, one level down, the
  descendants reachable through each of them; nothing is reached through a file or a
  directory that cannot be listed. A walk at depth \<open>d\<close> under \<open>max_depth = m\<close> has
  \<open>m - d\<close> levels left, and any number without \<open>max_depth\<close>. The direct tallies of a
  frame count its own entries.
\<close>

definition counted :: "config \<Rightarrow> node \<Rightarrow> bool" where
  "counted cfg e = ((show_hidden cfg \<or> \<not> is_hidden e) \<and> (dirs_only cfg \<longrightarrow> is_dir e))"

fun descendants_within :: "config \<Rightarrow> nat option \<Rightarrow> node \<Rightarrow> node list" where
  "descendants_within cfg levels (File _ _ _) = []"
| "descendants_within cfg levels (Dir _ None) = []"
| "descendants_within cfg levels (Dir _ (Some children)) =
     (if levels = Some 0 then []
      else concat (map (\<lambda>c. c # descendants_within cfg (map_option (\<lambda>n. n - 1) levels) c)
                     (filter (counted cfg) children)))"

definition levels_left :: "config \<Rightarrow> int \<Rightarrow> nat option" where
  "levels_left cfg depth = map_option (\<lambda>m. nat (m - depth)) (max_depth cfg)"

definition direct_tallies :: "python \<Rightarrow> config \<Rightarrow> node list \<Rightarrow> stats" where
  "direct_tallies py cfg es =
     \<lparr>dirs = length (filter is_dir es),
      files = length (filter (\<lambda>e. \<not> is_dir e) es),
      name_matches = length (filter (\<lambda>e. name_search py cfg (entry_name e) = Inr True) es),
      content_matches = length (filter (\<lambda>e. fst (content_search py cfg e) > 0) es)\<rparr>"

text \<open>Two results with the same error, or with the same statistics.\<close>

definition same_stats ::
  "error + (string list \<times> stats) \<Rightarrow> error + (string list \<times> stats) \<Rightarrow> bool" where
  "same_stats r1 r2 = (map_sum id snd r1 = map_sum id snd r2)"

definition both_patterns_config :: config where
  "both_patterns_config =
     default_config\<lparr>search_pattern := Some ''foo'', name_pattern := Some ''('', is_regex := True\<rparr>"

subsection \<open>Occurrences of a keyword\<close>

text \<open>The positions at which the literal occurs in the text, overlapping or not.\<close>

definition occurrences :: "bool \<Rightarrow> string \<Rightarrow> string \<Rightarrow> nat list" where
  "occurrences ic k s = filter (\<lambda>p. matches_at ic k (drop p s)) [0..<Suc (length s)]"

definition three_lines :: string where
  "three_lines = ''ab ab'' @ [CHR 0x0A] @ ''xabab'' @ [CHR 0x0A] @ ''ab, ab.'' @ [CHR 0x0A]"

definition ab_config :: config where
  "ab_config = default_config\<lparr>search_pattern := Some ''ab''\<rparr>"

definition bar_text :: string where
  "bar_text = ''one'' @ [CHR 0x0A] @ ''a bar here'' @ [CHR 0x0A] @ ''fo o''"

section \<open>Properties\<close>

subsection \<open>The loop, one entry at a time\<close>

lemma add_stats_zero [simp]: "add_stats zero_stats s = s" "add_stats s zero_stats = s"
  by (simp_all add: add_stats_def zero_stats_def)

lemma add_stats_assoc: "add_stats (add_stats a b) c = add_stats a (add_stats b c)"
  by (simp add: add_stats_def)

lemma walk_entries_Cons:
  "walk_entries py cfg pfx d (e # rest) lines st =
     (case visit_entry py cfg pfx d (rest = []) e of
        Inl err \<Rightarrow> Inl err
      | Inr (l, s) \<Rightarrow> walk_entries py cfg pfx d rest (lines @ l) (add_stats st s))"
  by (cases st)
     (simp add: walk_entries.simps(2) visit_entry_def entry_line_def Let_def add_stats_def
        own_stats_def split: sum.splits prod.splits)

lemma walk_entries_acc:
  "walk_entries py cfg pfx d es lines st =
     (case walk_entries py cfg pfx d es [] zero_stats of
        Inl err \<Rightarrow> Inl err
      | Inr (l, s) \<Rightarrow> Inr (lines @ l, add_stats st s))"
proof (induction es arbitrary: lines st)
  case Nil
  show ?case by simp
next
  case (Cons e rest)
  show ?case
  proof (cases "visit_entry py cfg pfx d (rest = []) e")
    case (Inl err)
    then show ?thesis by (simp add: walk_entries_Cons)
  next
    case (Inr r)
    obtain l s where r: "r = (l, s)" by (cases r)
    show ?thesis
      using Cons.IH [of "lines @ l" "add_stats st s"] Cons.IH [of l s]
      by (simp add: walk_entries_Cons Inr r add_stats_assoc split: sum.splits prod.splits)
  qed
qed

subsection \<open>The depth cutoff\<close>

text \<open>
  Claim C6. When \<open>max_depth\<close> is set, a walk invoked at a depth that has reached it
  returns no lines and all-zero statistics at once, whatever the directory holds; in
  particular the walk from the root, at depth 0, under \<open>max_depth = 0\<close>.
\<close>

theorem walk_tree_depth_cutoff:
  "(max_depth cfg = Some m \<and> m \<le> current_depth \<longrightarrow>
      walk_tree py cfg pfx current_depth directory =
        Inr ([], \<lparr>dirs = 0, files = 0, name_matches = 0, content_matches = 0\<rparr>))
   \<and> (max_depth cfg = Some 0 \<longrightarrow>
      walk_tree py cfg [] 0 directory =
        Inr ([], \<lparr>dirs = 0, files = 0, name_matches = 0, content_matches = 0\<rparr>))"
  by (simp add: walk_tree.simps depth_cutoff_def zero_stats_def)

theorem walk_tree_depth_cutoff_witness:
  "max_depth (default_config\<lparr>max_depth := Some 0\<rparr>) = Some 0
   \<and> (0::int) \<le> 0
   \<and> walk_tree plain_python (default_config\<lparr>max_depth := Some 0\<rparr>) [] 0 sample_tree =
       Inr ([], \<lparr>dirs = 0, files = 0, name_matches = 0, content_matches = 0\<rparr>)
   \<and> walk_tree plain_python default_config [] 0 (Dir ''root'' (Some [text_file ''a'' ''x''])) =
       Inr ([LAST_BRANCH @ ''a''], \<lparr>dirs = 0, files = 1, name_matches = 0, content_matches = 0\<rparr>)"
proof -
  have c: "max_depth (default_config\<lparr>max_depth := Some 0\<rparr>) = Some 0"
    by (simp add: default_config_def)
  have w: "walk_tree plain_python (default_config\<lparr>max_depth := Some 0\<rparr>) [] 0 sample_tree =
       Inr ([], \<lparr>dirs = 0, files = 0, name_matches = 0, content_matches = 0\<rparr>)"
    using walk_tree_depth_cutoff
      [of "default_config\<lparr>max_depth := Some 0\<rparr>" 0 0 plain_python "[]" sample_tree] c
    by simp
  have u: "walk_tree plain_python default_config [] 0 (Dir ''root'' (Some [text_file ''a'' ''x''])) =
       Inr ([LAST_BRANCH @ ''a''], \<lparr>dirs = 0, files = 1, name_matches = 0, content_matches = 0\<rparr>)"
    by (simp add: walk_tree.simps walk_entries.simps(2) depth_cutoff_def default_config_def
          list_entries_def is_hidden_def text_file_def name_search_def content_search_def
          format_entry_def search_active_def zero_stats_def Let_def)
  show ?thesis using c w u by simp
qed

subsection \<open>Files the content matcher rejects\<close>

text \<open>
  Claim C8. \<open>search_file\<close> returns the count 0 and the empty snippet for a file whose
  extension, lower-cased and without its leading dot, is one of gz, zip, tar, rar, 7z,
  bz2, xz, deb, img, iso, vmdk, dll, ovf, ova; for a file whose first 1024 bytes hold a
  null byte; and for a file whose binary read fails.
\<close>

theorem search_file_rejects:
  assumes "lower py (dropWhile (\<lambda>c. c = CHR ''.'') (path_suffix (entry_name filepath)))
             \<in> {''gz'', ''zip'', ''tar'', ''rar'', ''7z'', ''bz2'', ''xz'', ''deb'', ''img'',
                 ''iso'', ''vmdk'', ''dll'', ''ovf'', ''ova''}
           \<or> (\<exists>bs. read_bytes filepath = Some bs \<and> CHR 0x00 \<in> set (take 1024 bs))
           \<or> read_bytes filepath = None"
  shows "search_file py filepath pat rx ic = (0, [])"
  using assms
  by (auto simp: search_file_def extension_def EXCLUDE_EXTENSIONS_def is_binary_file_def)

theorem search_file_rejects_witness:
  "search_file plain_python (text_file ''Backup.ZIP'' ''needle'') ''needle'' False False = (0, [])
   \<and> search_file plain_python (File ''blob'' (Some (''needle'' @ [CHR 0x00])) (Some ''needle''))
        ''needle'' False False = (0, [])
   \<and> search_file plain_python (File ''locked.txt'' None (Some ''needle'')) ''needle'' False False
        = (0, [])
   \<and> fst (search_file plain_python (text_file ''plain.txt'' ''needle'') ''needle'' False False) = 1"
proof -
  have e: "lower plain_python (dropWhile (\<lambda>c. c = CHR ''.'')
             (path_suffix (entry_name (text_file ''Backup.ZIP'' ''needle'')))) = ''zip''"
    by code_simp
  have a: "search_file plain_python (text_file ''Backup.ZIP'' ''needle'') ''needle'' False False
             = (0, [])"
    by (rule search_file_rejects) (simp add: e)
  have b: "search_file plain_python (File ''blob'' (Some (''needle'' @ [CHR 0x00])) (Some ''needle''))
             ''needle'' False False = (0, [])"
    by (rule search_file_rejects) (simp add: read_bytes_def)
  have c: "search_file plain_python (File ''locked.txt'' None (Some ''needle'')) ''needle'' False
             False = (0, [])"
    by (rule search_file_rejects) (simp add: read_bytes_def)
  have d: "fst (search_file plain_python (text_file ''plain.txt'' ''needle'') ''needle'' False
             False) = 1"
    by code_simp
  show ?thesis using a b c d by simp
qed

subsection \<open>The order of the entries\<close>

lemma sorted_by_key_split:
  "sorted (map (entry_key py) es) \<Longrightarrow> es = filter is_dir es @ filter (\<lambda>e. \<not> is_dir e) es"
proof (induction es)
  case Nil
  show ?case by simp
next
  case (Cons x xs)
  show ?case
  proof (cases "is_dir x")
    case True
    with Cons show ?thesis by simp
  next
    case False
    have "\<not> is_dir y" if "y \<in> set xs" for y
    proof -
      have "entry_key py x \<le> entry_key py y" using Cons.prems that by auto
      with False show ?thesis by (auto simp: entry_key_def less_eq_prod_def)
    qed
    then have "filter is_dir xs = []" "filter (\<lambda>e. \<not> is_dir e) xs = xs"
      by (auto simp: filter_empty_conv filter_id_conv)
    with False show ?thesis by simp
  qed
qed

lemma sorted_names_of_group:
  "sorted (map (entry_key py) es) \<Longrightarrow> \<forall>e\<in>set es. is_dir e = b
     \<Longrightarrow> sorted (map (\<lambda>e. lower py (entry_name e)) es)"
  by (induction es) (auto simp: entry_key_def less_eq_prod_def)

lemma sorted_list_entries: "sorted (map (entry_key py) (list_entries py cfg children))"
  by (simp add: list_entries_def Let_def sorted_filter sorted_sort_key)

text \<open>
  Claim C7. At every level the walker runs its loop over \<open>list_entries\<close>, in which
  every directory comes before every file and, within the directories and within the
  files, the names are in the lexicographic order of their lower-cased forms, as
  \<open>str.lower\<close> gives them. The files Banana, apple, Cherry and the directory Zeta are
  emitted as Zeta/, apple, Banana, Cherry.
\<close>

theorem list_entries_order:
  "(\<not> depth_cutoff cfg d \<longrightarrow>
      walk_tree py cfg pfx d (Dir n (Some children)) =
        walk_entries py cfg pfx d (list_entries py cfg children) [] zero_stats)
   \<and> list_entries py cfg children =
       filter is_dir (list_entries py cfg children) @
       filter (\<lambda>e. \<not> is_dir e) (list_entries py cfg children)
   \<and> sorted (map (\<lambda>e. lower py (entry_name e)) (filter is_dir (list_entries py cfg children)))
   \<and> sorted (map (\<lambda>e. lower py (entry_name e))
        (filter (\<lambda>e. \<not> is_dir e) (list_entries py cfg children)))
   \<and> map entry_name (list_entries plain_python default_config
        [text_file ''Banana'' [], text_file ''apple'' [], text_file ''Cherry'' [],
         Dir ''Zeta'' (Some [])]) = [''Zeta'', ''apple'', ''Banana'', ''Cherry'']
   \<and> walk_tree py default_config [] 0
        (Dir ''root'' (Some [text_file ''Banana'' [], text_file ''apple'' [],
           text_file ''Cherry'' [], Dir ''Zeta'' (Some [])])) =
       Inr ([BRANCH @ BLUE @ BOLD @ ''Zeta/'' @ RESET, BRANCH @ ''apple'', BRANCH @ ''Banana'',
             LAST_BRANCH @ ''Cherry''],
            \<lparr>dirs = 1, files = 3, name_matches = 0, content_matches = 0\<rparr>)"
proof -
  let ?L = "list_entries py cfg children"
  have s: "sorted (map (entry_key py) ?L)" by (rule sorted_list_entries)
  have a: "\<not> depth_cutoff cfg d \<longrightarrow>
      walk_tree py cfg pfx d (Dir n (Some children)) =
        walk_entries py cfg pfx d ?L [] zero_stats"
    by (simp add: walk_tree.simps)
  have b: "?L = filter is_dir ?L @ filter (\<lambda>e. \<not> is_dir e) ?L"
    using s by (rule sorted_by_key_split)
  have c: "sorted (map (\<lambda>e. lower py (entry_name e)) (filter is_dir ?L))"
    using sorted_filter [OF s, of is_dir]
    by (rule sorted_names_of_group [where b = True]) simp
  have d: "sorted (map (\<lambda>e. lower py (entry_name e)) (filter (\<lambda>e. \<not> is_dir e) ?L))"
    using sorted_filter [OF s, of "\<lambda>e. \<not> is_dir e"]
    by (rule sorted_names_of_group [where b = False]) simp
  have e: "map entry_name (list_entries plain_python default_config
        [text_file ''Banana'' [], text_file ''apple'' [], text_file ''Cherry'' [],
         Dir ''Zeta'' (Some [])]) = [''Zeta'', ''apple'', ''Banana'', ''Cherry'']"
    by code_simp
  have f: "walk_tree py default_config [] 0
        (Dir ''root'' (Some [text_file ''Banana'' [], text_file ''apple'' [],
           text_file ''Cherry'' [], Dir ''Zeta'' (Some [])])) =
       Inr ([BRANCH @ BLUE @ BOLD @ ''Zeta/'' @ RESET, BRANCH @ ''apple'', BRANCH @ ''Banana'',
             LAST_BRANCH @ ''Cherry''],
            \<lparr>dirs = 1, files = 3, name_matches = 0, content_matches = 0\<rparr>)"
    by code_simp
  show ?thesis using a b c d e f by blast
qed


theorem list_entries_order_witness:
  "\<not> depth_cutoff default_config 0
   \<and> walk_tree plain_python default_config [] 0 (Dir ''root'' (Some (the (listing sample_tree)))) =
       walk_entries plain_python default_config [] 0
         (list_entries plain_python default_config (the (listing sample_tree))) [] zero_stats
   \<and> map entry_name (filter is_dir (list_entries plain_python default_config (the (listing sample_tree))))
       = [''Zeta'']
   \<and> sorted (map (\<lambda>e. lower plain_python (entry_name e))
        (filter (\<lambda>e. \<not> is_dir e) (list_entries plain_python default_config (the (listing sample_tree)))))
   \<and> map entry_name
        (filter (\<lambda>e. \<not> is_dir e) (list_entries plain_python default_config (the (listing sample_tree))))
       = [''apple'', ''Banana'', ''Cherry'']"
proof -
  have h: "\<not> depth_cutoff default_config 0"
    by (simp add: depth_cutoff_def default_config_def)
  have d: "map entry_name (filter is_dir (list_entries plain_python default_config (the (listing sample_tree))))
       = [''Zeta'']"
    by code_simp
  have f: "map entry_name
        (filter (\<lambda>e. \<not> is_dir e) (list_entries plain_python default_config (the (listing sample_tree))))
       = [''apple'', ''Banana'', ''Cherry'']"
    by code_simp
  show ?thesis
    using h d f
      list_entries_order [of default_config 0 plain_python "[]" "''root''"
        "the (listing sample_tree)"]
    by blast
qed

subsection \<open>Pruning\<close>

lemma set_list_entries: "set (list_entries py cfg cs) \<subseteq> set cs"
  by (auto simp: list_entries_def Let_def)

lemma list_entries_match_only [simp]:
  "list_entries py (cfg\<lparr>match_only := b\<rparr>) cs = list_entries py cfg cs"
  by (simp add: list_entries_def)

lemma name_search_match_only [simp]:
  "name_search py (cfg\<lparr>match_only := b\<rparr>) nm = name_search py cfg nm"
  by (simp add: name_search_def split: option.splits)

lemma content_search_match_only [simp]:
  "content_search py (cfg\<lparr>match_only := b\<rparr>) e = content_search py cfg e"
  by (simp add: content_search_def split: option.splits)

lemma entry_line_match_only [simp]:
  "entry_line py (cfg\<lparr>match_only := b\<rparr>) pfx is_last e nm =
     entry_line py cfg pfx is_last e nm"
  by (simp add: entry_line_def search_active_def)

lemma depth_cutoff_match_only [simp]:
  "depth_cutoff (cfg\<lparr>match_only := b\<rparr>) d = depth_cutoff cfg d"
  by (simp add: depth_cutoff_def)

lemma append_results_simps [simp]:
  "append_results (Inl err) r = Inl err"
  "append_results (Inr (l1, s1)) (Inl err) = Inl err"
  "append_results (Inr (l1, s1)) (Inr (l2, s2)) = Inr (l1 @ l2, add_stats s1 s2)"
  by (simp_all add: append_results_def)

lemma walk_entries_Cons0:
  "walk_entries py cfg pfx d (e # rest) [] zero_stats =
     append_results (visit_entry py cfg pfx d (rest = []) e)
       (walk_entries py cfg pfx d rest [] zero_stats)"
proof (cases "visit_entry py cfg pfx d (rest = []) e")
  case (Inl err)
  then show ?thesis by (simp add: walk_entries_Cons)
next
  case (Inr r)
  obtain l s where r: "r = (l, s)" by (cases r)
  show ?thesis
    using walk_entries_acc [of py cfg pfx d rest l s]
    by (simp add: walk_entries_Cons Inr r split: sum.splits prod.splits)
qed

lemma pruned_of_simps [simp]:
  "pruned_of (Inl e1) r = (r = Inl e1)"
  "pruned_of (Inr (l1, s1)) (Inl e2) = False"
  "pruned_of (Inr (l1, s1)) (Inr (l2, s2)) = (subseq l1 l2 \<and> s1 = s2)"
  by (simp_all add: pruned_of_def)

lemma pruned_of_append:
  assumes "pruned_of v1 v2" and "pruned_of r1 r2"
  shows "pruned_of (append_results v1 r1) (append_results v2 r2)"
proof (cases v1)
  case (Inl err)
  with assms show ?thesis by simp
next
  case v1: (Inr a)
  obtain l1 s1 where a: "a = (l1, s1)" by (cases a)
  from assms(1) v1 a obtain l2 where v2: "v2 = Inr (l2, s1)" and s: "subseq l1 l2"
    by (cases v2) auto
  show ?thesis
  proof (cases r1)
    case (Inl err)
    with assms v1 a v2 show ?thesis by simp
  next
    case r1: (Inr b)
    obtain m1 t1 where b: "b = (m1, t1)" by (cases b)
    from assms(2) r1 b obtain m2 where r2: "r2 = Inr (m2, t1)" and t: "subseq m1 m2"
      by (cases r2) auto
    show ?thesis
      using s t by (simp add: v1 a v2 r1 b r2 list_emb_append_mono)
  qed
qed

lemma pruned_visit_entry:
  assumes "\<And>p dd. pruned_of (walk_tree py (cfg\<lparr>match_only := True\<rparr>) p dd e)
                        (walk_tree py (cfg\<lparr>match_only := False\<rparr>) p dd e)"
  shows "pruned_of (visit_entry py (cfg\<lparr>match_only := True\<rparr>) pfx d is_last e)
                   (visit_entry py (cfg\<lparr>match_only := False\<rparr>) pfx d is_last e)"
proof (cases "name_search py cfg (entry_name e)")
  case (Inl err)
  then show ?thesis by (simp add: visit_entry_def)
next
  case nm: (Inr name_matched)
  show ?thesis
  proof (cases "is_dir e")
    case False
    with nm show ?thesis by (simp add: visit_entry_def Let_def)
  next
    case True
    let ?p = "pfx @ (if is_last then SPACE else PIPE)"
    note h = assms [of ?p "d + 1"]
    show ?thesis
    proof (cases "walk_tree py (cfg\<lparr>match_only := True\<rparr>) ?p (d + 1) e")
      case (Inl err)
      with h nm True show ?thesis by (simp add: visit_entry_def Let_def)
    next
      case w1: (Inr a)
      obtain l1 s1 where a: "a = (l1, s1)" by (cases a)
      from h w1 a obtain l2
        where w2: "walk_tree py (cfg\<lparr>match_only := False\<rparr>) ?p (d + 1) e = Inr (l2, s1)"
          and s: "subseq l1 l2"
        by (cases "walk_tree py (cfg\<lparr>match_only := False\<rparr>) ?p (d + 1) e") auto
      show ?thesis
        using s nm True w1 a w2 by (simp add: visit_entry_def Let_def)
    qed
  qed
qed

lemma pruned_walk_entries:
  assumes "\<And>e p dd. e \<in> set es \<Longrightarrow>
             pruned_of (walk_tree py (cfg\<lparr>match_only := True\<rparr>) p dd e)
                       (walk_tree py (cfg\<lparr>match_only := False\<rparr>) p dd e)"
  shows "pruned_of (walk_entries py (cfg\<lparr>match_only := True\<rparr>) pfx d es [] zero_stats)
                   (walk_entries py (cfg\<lparr>match_only := False\<rparr>) pfx d es [] zero_stats)"
  using assms
proof (induction es)
  case Nil
  show ?case by simp
next
  case (Cons e rest)
  have v: "pruned_of (visit_entry py (cfg\<lparr>match_only := True\<rparr>) pfx d (rest = []) e)
                     (visit_entry py (cfg\<lparr>match_only := False\<rparr>) pfx d (rest = []) e)"
    by (rule pruned_visit_entry) (simp add: Cons.prems)
  have r: "pruned_of (walk_entries py (cfg\<lparr>match_only := True\<rparr>) pfx d rest [] zero_stats)
                     (walk_entries py (cfg\<lparr>match_only := False\<rparr>) pfx d rest [] zero_stats)"
    by (rule Cons.IH) (simp add: Cons.prems)
  show ?case
    unfolding walk_entries_Cons0 using v r by (rule pruned_of_append)
qed

lemma pruned_walk_tree:
  "pruned_of (walk_tree py (cfg\<lparr>match_only := True\<rparr>) pfx d node)
             (walk_tree py (cfg\<lparr>match_only := False\<rparr>) pfx d node)"
proof (induction node arbitrary: pfx d)
  case (File nm bs t)
  show ?case by (simp add: walk_tree.simps)
next
  case (Dir nm l)
  show ?case
  proof (cases l)
    case None
    then show ?thesis by (simp add: walk_tree.simps)
  next
    case (Some cs)
    have "pruned_of
            (walk_entries py (cfg\<lparr>match_only := True\<rparr>) pfx d (list_entries py cfg cs) [] zero_stats)
            (walk_entries py (cfg\<lparr>match_only := False\<rparr>) pfx d (list_entries py cfg cs) [] zero_stats)"
    proof (rule pruned_walk_entries)
      fix e p dd
      assume "e \<in> set (list_entries py cfg cs)"
      then have "e \<in> set cs" using set_list_entries by blast
      then show "pruned_of (walk_tree py (cfg\<lparr>match_only := True\<rparr>) p dd e)
                       (walk_tree py (cfg\<lparr>match_only := False\<rparr>) p dd e)"
        using Dir.IH [of cs e p dd] Some by simp
    qed
    then show ?thesis using Some by (simp add: walk_tree.simps [of _ _ _ _ "Dir nm (Some cs)"])
  qed
qed

lemma append_results_Inr:
  "append_results v r = Inr (ls, st) \<longleftrightarrow>
     (\<exists>l1 s1 l2 s2. v = Inr (l1, s1) \<and> r = Inr (l2, s2) \<and> ls = l1 @ l2 \<and> st = add_stats s1 s2)"
  by (auto simp: append_results_def split: sum.splits prod.splits)

lemma visit_entry_no_match:
  assumes "visit_entry py (cfg\<lparr>match_only := True\<rparr>) pfx d is_last e = Inr (ls, st)"
    and "name_matches st = 0" and "content_matches st = 0"
  shows "ls = []"
  using assms
  by (auto simp: visit_entry_def Let_def add_stats_def own_stats_def
           split: sum.splits prod.splits if_splits)

lemma walk_entries_no_match:
  "walk_entries py (cfg\<lparr>match_only := True\<rparr>) pfx d es [] zero_stats = Inr (ls, st)
     \<Longrightarrow> name_matches st = 0 \<Longrightarrow> content_matches st = 0 \<Longrightarrow> ls = []"
proof (induction es arbitrary: ls st)
  case Nil
  then show ?case by simp
next
  case (Cons e rest)
  from Cons.prems(1) obtain l1 s1 l2 s2 where
    v: "visit_entry py (cfg\<lparr>match_only := True\<rparr>) pfx d (rest = []) e = Inr (l1, s1)" and
    r: "walk_entries py (cfg\<lparr>match_only := True\<rparr>) pfx d rest [] zero_stats = Inr (l2, s2)" and
    ls: "ls = l1 @ l2" and st: "st = add_stats s1 s2"
    unfolding walk_entries_Cons0 append_results_Inr by blast
  from st Cons.prems(2,3) have z: "name_matches s1 = 0" "content_matches s1 = 0"
    "name_matches s2 = 0" "content_matches s2 = 0"
    by (simp_all add: add_stats_def)
  have "l1 = []" using v z(1,2) by (rule visit_entry_no_match)
  moreover have "l2 = []" using r z(3,4) by (rule Cons.IH)
  ultimately show ?case using ls by simp
qed

text \<open>
  Claim C2. Pruning is display-only. A walk with \<open>match_only\<close> set returns the same
  statistics (or raises the same error) as the walk without it under the same
  configuration. When the statistics of a pruned walk of a listed directory count no
  name match and no content match, the walk emits no line. A directory that is
  suppressed, having no name match and no match below it, leaves the lines as they
  were while its own tally and the statistics of its subtree are added to the
  statistics of the frame.
\<close>

theorem pruning_is_display_only:
  "map_sum id snd (walk_tree py (cfg\<lparr>match_only := True\<rparr>) pfx d node) =
     map_sum id snd (walk_tree py (cfg\<lparr>match_only := False\<rparr>) pfx d node)
   \<and> (walk_tree py (cfg\<lparr>match_only := True\<rparr>) pfx d (Dir nm (Some children)) = Inr (ls, st)
        \<and> name_matches st = 0 \<and> content_matches st = 0 \<longrightarrow> ls = [])
   \<and> (is_dir e \<and> name_search py cfg (entry_name e) = Inr False
        \<and> walk_tree py (cfg\<lparr>match_only := True\<rparr>)
             (pfx @ (if rest = [] then SPACE else PIPE)) (d + 1) e = Inr (sub_lines, sub_stats)
        \<and> name_matches sub_stats = 0 \<and> content_matches sub_stats = 0 \<longrightarrow>
      walk_entries py (cfg\<lparr>match_only := True\<rparr>) pfx d (e # rest) lines acc =
        walk_entries py (cfg\<lparr>match_only := True\<rparr>) pfx d rest lines
          (acc\<lparr>dirs := dirs acc + 1 + dirs sub_stats, files := files acc + files sub_stats\<rparr>))"
proof (intro conjI impI)
  show "map_sum id snd (walk_tree py (cfg\<lparr>match_only := True\<rparr>) pfx d node) =
     map_sum id snd (walk_tree py (cfg\<lparr>match_only := False\<rparr>) pfx d node)"
    using pruned_walk_tree [of py cfg pfx d node]
    by (cases "walk_tree py (cfg\<lparr>match_only := True\<rparr>) pfx d node";
        cases "walk_tree py (cfg\<lparr>match_only := False\<rparr>) pfx d node") auto
next
  assume a: "walk_tree py (cfg\<lparr>match_only := True\<rparr>) pfx d (Dir nm (Some children)) = Inr (ls, st)
        \<and> name_matches st = 0 \<and> content_matches st = 0"
  show "ls = []"
  proof (cases "depth_cutoff cfg d")
    case True
    with a show ?thesis by (simp add: walk_tree.simps)
  next
    case False
    with a have "walk_entries py (cfg\<lparr>match_only := True\<rparr>) pfx d
                   (list_entries py cfg children) [] zero_stats = Inr (ls, st)"
      by (simp add: walk_tree.simps)
    then show ?thesis using a by (blast intro: walk_entries_no_match)
  qed
next
  assume a: "is_dir e \<and> name_search py cfg (entry_name e) = Inr False
        \<and> walk_tree py (cfg\<lparr>match_only := True\<rparr>)
             (pfx @ (if rest = [] then SPACE else PIPE)) (d + 1) e = Inr (sub_lines, sub_stats)
        \<and> name_matches sub_stats = 0 \<and> content_matches sub_stats = 0"
  then have c: "content_search py cfg e = (0, [])"
    by (simp add: content_search_def split: option.splits)
  show "walk_entries py (cfg\<lparr>match_only := True\<rparr>) pfx d (e # rest) lines acc =
        walk_entries py (cfg\<lparr>match_only := True\<rparr>) pfx d rest lines
          (acc\<lparr>dirs := dirs acc + 1 + dirs sub_stats, files := files acc + files sub_stats\<rparr>)"
    using a c
    by (cases acc) (simp add: walk_entries.simps(2) Let_def)
qed

theorem pruning_is_display_only_witness:
  "walk_tree plain_python (quiet_config\<lparr>match_only := True\<rparr>) [] 0 sample_tree =
     Inr ([], \<lparr>dirs = 1, files = 4, name_matches = 0, content_matches = 0\<rparr>)
   \<and> map_sum id snd (walk_tree plain_python (quiet_config\<lparr>match_only := False\<rparr>) [] 0 sample_tree) =
     Inr \<lparr>dirs = 1, files = 4, name_matches = 0, content_matches = 0\<rparr>
   \<and> is_dir (Dir ''Zeta'' (Some [text_file ''notes.txt'' ''hello world'']))
   \<and> name_search plain_python quiet_config ''Zeta'' = Inr False
   \<and> walk_entries plain_python (quiet_config\<lparr>match_only := True\<rparr>) [] 0
        [Dir ''Zeta'' (Some [text_file ''notes.txt'' ''hello world''])] [] zero_stats =
      Inr ([], \<lparr>dirs = 1, files = 1, name_matches = 0, content_matches = 0\<rparr>)"
proof -
  let ?z = "Dir ''Zeta'' (Some [text_file ''notes.txt'' ''hello world''])"
  have w: "walk_tree plain_python (quiet_config\<lparr>match_only := True\<rparr>) [] 0 sample_tree =
     Inr ([], \<lparr>dirs = 1, files = 4, name_matches = 0, content_matches = 0\<rparr>)"
    by code_simp
  have n: "name_search plain_python quiet_config (entry_name ?z) = Inr False"
    by code_simp
  have s: "walk_tree plain_python (quiet_config\<lparr>match_only := True\<rparr>)
             ([] @ (if ([]::node list) = [] then SPACE else PIPE)) (0 + 1) ?z =
           Inr ([], \<lparr>dirs = 0, files = 1, name_matches = 0, content_matches = 0\<rparr>)"
    by code_simp
  note t = pruning_is_display_only [of plain_python quiet_config "[]" 0 sample_tree
      "''root''" "the (listing sample_tree)" "[]"
      "\<lparr>dirs = 1, files = 4, name_matches = 0, content_matches = 0\<rparr>"
      ?z "[]" "[]" "\<lparr>dirs = 0, files = 1, name_matches = 0, content_matches = 0\<rparr>"
      "[]" zero_stats]
  show ?thesis
    using t w n s by (simp add: zero_stats_def)
qed

text \<open>
  Claim C9. The lines of a walk with \<open>match_only\<close> set are a subsequence of the lines
  of the same walk without it: whenever one of the two walks returns, so does the
  other, with the same statistics, and every pruned line is a line of the unpruned walk,
  in the same order.
\<close>

theorem pruned_lines_subseq:
  "(walk_tree py (cfg\<lparr>match_only := True\<rparr>) pfx d node = Inr (l1, s1) \<longrightarrow>
      (\<exists>l2. walk_tree py (cfg\<lparr>match_only := False\<rparr>) pfx d node = Inr (l2, s1)
            \<and> subseq l1 l2))
   \<and> (walk_tree py (cfg\<lparr>match_only := False\<rparr>) pfx d node = Inr (l2, s2) \<longrightarrow>
      (\<exists>l1. walk_tree py (cfg\<lparr>match_only := True\<rparr>) pfx d node = Inr (l1, s2)
            \<and> subseq l1 l2))"
  using pruned_walk_tree [of py cfg pfx d node]
  by (cases "walk_tree py (cfg\<lparr>match_only := True\<rparr>) pfx d node";
      cases "walk_tree py (cfg\<lparr>match_only := False\<rparr>) pfx d node") auto


theorem pruned_lines_subseq_witness:
  "walk_tree plain_python (hello_config\<lparr>match_only := True\<rparr>) [] 0 sample_tree =
     Inr ([BRANCH @ BLUE @ BOLD @ ''Zeta/'' @ RESET,
           PIPE @ LAST_BRANCH @ MAGENTA @ BOLD @ ''notes.txt'' @ RESET @ '' '' @ YELLOW @
             ''[1 match]'' @ RESET @ '' '' @ CYAN @ ''['' @ [CHR 0x27] @ ''hello'' @ [CHR 0x27]
             @ '' => '' @ [CHR 0x27] @ ''hello world'' @ [CHR 0x27] @ '']'' @ RESET],
          \<lparr>dirs = 1, files = 4, name_matches = 0, content_matches = 1\<rparr>)
   \<and> (\<exists>l2. walk_tree plain_python (hello_config\<lparr>match_only := False\<rparr>) [] 0 sample_tree =
           Inr (l2, \<lparr>dirs = 1, files = 4, name_matches = 0, content_matches = 1\<rparr>)
         \<and> subseq [BRANCH @ BLUE @ BOLD @ ''Zeta/'' @ RESET,
              PIPE @ LAST_BRANCH @ MAGENTA @ BOLD @ ''notes.txt'' @ RESET @ '' '' @ YELLOW @
               ''[1 match]'' @ RESET @ '' '' @ CYAN @ ''['' @ [CHR 0x27] @ ''hello'' @ [CHR 0x27]
               @ '' => '' @ [CHR 0x27] @ ''hello world'' @ [CHR 0x27] @ '']'' @ RESET] l2
         \<and> length l2 = 5)"
proof -
  have w: "walk_tree plain_python (hello_config\<lparr>match_only := True\<rparr>) [] 0 sample_tree =
     Inr ([BRANCH @ BLUE @ BOLD @ ''Zeta/'' @ RESET,
           PIPE @ LAST_BRANCH @ MAGENTA @ BOLD @ ''notes.txt'' @ RESET @ '' '' @ YELLOW @
             ''[1 match]'' @ RESET @ '' '' @ CYAN @ ''['' @ [CHR 0x27] @ ''hello'' @ [CHR 0x27]
             @ '' => '' @ [CHR 0x27] @ ''hello world'' @ [CHR 0x27] @ '']'' @ RESET],
          \<lparr>dirs = 1, files = 4, name_matches = 0, content_matches = 1\<rparr>)"
    by code_simp
  have n: "(case walk_tree plain_python (hello_config\<lparr>match_only := False\<rparr>) [] 0 sample_tree of
             Inl _ \<Rightarrow> 0 | Inr (l, _) \<Rightarrow> length l) = (5::nat)"
    by code_simp
  from pruned_lines_subseq [of plain_python hello_config "[]" 0 sample_tree] w
  obtain l2 where
    f: "walk_tree plain_python (hello_config\<lparr>match_only := False\<rparr>) [] 0 sample_tree =
           Inr (l2, \<lparr>dirs = 1, files = 4, name_matches = 0, content_matches = 1\<rparr>)" and
    q: "subseq [BRANCH @ BLUE @ BOLD @ ''Zeta/'' @ RESET,
              PIPE @ LAST_BRANCH @ MAGENTA @ BOLD @ ''notes.txt'' @ RESET @ '' '' @ YELLOW @
               ''[1 match]'' @ RESET @ '' '' @ CYAN @ ''['' @ [CHR 0x27] @ ''hello'' @ [CHR 0x27]
               @ '' => '' @ [CHR 0x27] @ ''hello world'' @ [CHR 0x27] @ '']'' @ RESET] l2"
    by blast
  from n f have "length l2 = 5" by simp
  with w f q show ?thesis by blast
qed

subsection \<open>Directories only\<close>

lemma list_entries_dirs_only:
  "dirs_only cfg \<Longrightarrow> e \<in> set (list_entries py cfg cs) \<Longrightarrow> is_dir e"
  by (auto simp: list_entries_def Let_def split: if_splits)

lemma content_search_dir: "is_dir e \<Longrightarrow> content_search py cfg e = (0, [])"
  by (simp add: content_search_def split: option.splits)

lemma visit_entry_dirs_only:
  assumes "is_dir e"
    and "\<And>p dd ls st. walk_tree py cfg p dd e = Inr (ls, st)
           \<Longrightarrow> files st = 0 \<and> content_matches st = 0"
    and "visit_entry py cfg pfx d is_last e = Inr (ls, st)"
  shows "files st = 0 \<and> content_matches st = 0"
proof -
  from assms(3) assms(1) obtain nm sl ss where
    w: "walk_tree py cfg (pfx @ (if is_last then SPACE else PIPE)) (d + 1) e = Inr (sl, ss)"
    and st: "st = add_stats (own_stats True nm 0) ss"
    by (auto simp: visit_entry_def Let_def content_search_dir split: sum.splits prod.splits)
  from assms(2) [OF w] st show ?thesis
    by (simp add: add_stats_def own_stats_def)
qed

lemma walk_entries_dirs_only:
  assumes "\<And>e. e \<in> set es \<Longrightarrow> is_dir e"
    and "\<And>e p dd ls st. e \<in> set es \<Longrightarrow> walk_tree py cfg p dd e = Inr (ls, st)
           \<Longrightarrow> files st = 0 \<and> content_matches st = 0"
    and "walk_entries py cfg pfx d es [] zero_stats = Inr (ls, st)"
  shows "files st = 0 \<and> content_matches st = 0"
  using assms
proof (induction es arbitrary: ls st)
  case Nil
  then show ?case by (auto simp: zero_stats_def)
next
  case (Cons e rest)
  from Cons.prems(3) obtain l1 s1 l2 s2 where
    v: "visit_entry py cfg pfx d (rest = []) e = Inr (l1, s1)" and
    r: "walk_entries py cfg pfx d rest [] zero_stats = Inr (l2, s2)" and
    st: "st = add_stats s1 s2"
    unfolding walk_entries_Cons0 append_results_Inr by blast
  have a: "files s1 = 0 \<and> content_matches s1 = 0"
  proof (rule visit_entry_dirs_only [OF _ _ v])
    show "is_dir e" by (simp add: Cons.prems(1))
    show "\<And>p dd ls st. walk_tree py cfg p dd e = Inr (ls, st)
           \<Longrightarrow> files st = 0 \<and> content_matches st = 0"
      using Cons.prems(2) [of e] by (meson list.set_intros(1))
  qed
  have b: "files s2 = 0 \<and> content_matches s2 = 0"
  proof (rule Cons.IH [OF _ _ r])
    show "\<And>e. e \<in> set rest \<Longrightarrow> is_dir e" by (simp add: Cons.prems(1))
    show "\<And>e p dd ls st. e \<in> set rest \<Longrightarrow> walk_tree py cfg p dd e = Inr (ls, st)
           \<Longrightarrow> files st = 0 \<and> content_matches st = 0"
      using Cons.prems(2) by (meson list.set_intros(2))
  qed
  from a b st show ?case by (simp add: add_stats_def)
qed

lemma walk_tree_dirs_only:
  "dirs_only cfg \<Longrightarrow> walk_tree py cfg pfx d node = Inr (ls, st)
     \<Longrightarrow> files st = 0 \<and> content_matches st = 0"
proof (induction node arbitrary: pfx d ls st)
  case (File nm bs t)
  then show ?case by (auto simp: walk_tree.simps zero_stats_def split: if_splits)
next
  case (Dir nm l)
  show ?case
  proof (cases "depth_cutoff cfg d")
    case True
    with Dir.prems show ?thesis by (auto simp: walk_tree.simps zero_stats_def)
  next
    case nc: False
    show ?thesis
    proof (cases l)
      case None
      with Dir.prems nc show ?thesis by (auto simp: walk_tree.simps zero_stats_def)
    next
      case (Some cs)
      with Dir.prems nc have
        w: "walk_entries py cfg pfx d (list_entries py cfg cs) [] zero_stats = Inr (ls, st)"
        by (simp add: walk_tree.simps)
      show ?thesis
      proof (rule walk_entries_dirs_only [OF _ _ w])
        show "\<And>e. e \<in> set (list_entries py cfg cs) \<Longrightarrow> is_dir e"
          using Dir.prems(1) by (rule list_entries_dirs_only)
        fix e p dd ls' st'
        assume "e \<in> set (list_entries py cfg cs)"
          and "walk_tree py cfg p dd e = Inr (ls', st')"
        moreover have "e \<in> set cs" using calculation(1) set_list_entries by blast
        ultimately show "files st' = 0 \<and> content_matches st' = 0"
          using Dir.IH [of cs e p dd ls' st'] Some Dir.prems(1) by simp
      qed
    qed
  qed
qed

text \<open>
  Claim C10. Under \<open>dirs_only\<close> every walk that returns, at any depth and prefix,
  returns statistics with \<open>files = 0\<close> and \<open>content_matches = 0\<close>, whatever the
  search pattern: every entry of the loop is a directory, and for a directory the
  content search gives the count 0 without calling \<open>search_file\<close>.
\<close>

theorem dirs_only_counts_no_files:
  "(dirs_only cfg \<and> walk_tree py cfg pfx d node = Inr (ls, st)
      \<longrightarrow> files st = 0 \<and> content_matches st = 0)
   \<and> (dirs_only cfg \<and> e \<in> set (list_entries py cfg children) \<longrightarrow>
        is_dir e \<and> content_search py cfg e = (0, []))"
  using walk_tree_dirs_only [of cfg py pfx d node ls st]
    list_entries_dirs_only [of cfg e py children]
  by (auto simp: content_search_dir)

theorem dirs_only_counts_no_files_witness:
  "dirs_only hello_dirs_config
   \<and> walk_tree plain_python hello_dirs_config [] 0 sample_tree =
       Inr ([LAST_BRANCH @ BLUE @ BOLD @ ''Zeta/'' @ RESET],
            \<lparr>dirs = 1, files = 0, name_matches = 0, content_matches = 0\<rparr>)
   \<and> list_entries plain_python hello_dirs_config (the (listing sample_tree)) =
       [Dir ''Zeta'' (Some [text_file ''notes.txt'' ''hello world''])]
   \<and> content_search plain_python hello_dirs_config
        (Dir ''Zeta'' (Some [text_file ''notes.txt'' ''hello world''])) = (0, [])
   \<and> content_matches (snd (projr (walk_tree plain_python
        (default_config\<lparr>search_pattern := Some ''hello''\<rparr>) [] 0 sample_tree))) = 1"
proof -
  have c: "dirs_only hello_dirs_config" by code_simp
  have w: "walk_tree plain_python hello_dirs_config [] 0 sample_tree =
       Inr ([LAST_BRANCH @ BLUE @ BOLD @ ''Zeta/'' @ RESET],
            \<lparr>dirs = 1, files = 0, name_matches = 0, content_matches = 0\<rparr>)"
    by code_simp
  have l: "list_entries plain_python hello_dirs_config (the (listing sample_tree)) =
       [Dir ''Zeta'' (Some [text_file ''notes.txt'' ''hello world''])]"
    by code_simp
  have u: "content_matches (snd (projr (walk_tree plain_python
        (default_config\<lparr>search_pattern := Some ''hello''\<rparr>) [] 0 sample_tree))) = 1"
    by code_simp
  note t = dirs_only_counts_no_files [of hello_dirs_config plain_python "[]" 0 sample_tree
      "[LAST_BRANCH @ BLUE @ BOLD @ ''Zeta/'' @ RESET]"
      "\<lparr>dirs = 1, files = 0, name_matches = 0, content_matches = 0\<rparr>"
      "Dir ''Zeta'' (Some [text_file ''notes.txt'' ''hello world''])"
      "the (listing sample_tree)"]
  show ?thesis using t c w l u by simp
qed

subsection \<open>The aggregate\<close>

lemma list_entries_sort_counted:
  "list_entries py cfg cs = sort_key (entry_key py) (filter (counted cfg) cs)"
  by (auto simp: list_entries_def Let_def counted_def filter_sort [symmetric] intro: filter_cong)

lemma sum_list_insort_key: "sum_list (map g (insort_key k x xs)) = g x + sum_list (map g xs)"
  for g :: "'a \<Rightarrow> nat"
  by (induction xs) auto

lemma sum_list_sort_key: "sum_list (map g (sort_key k xs)) = sum_list (map g xs)"
  for g :: "'a \<Rightarrow> nat"
  by (induction xs) (auto simp: sum_list_insort_key)

lemma length_filter_concat:
  "length (filter P (concat (map f xs))) = sum_list (map (\<lambda>x. length (filter P (f x))) xs)"
  by (induction xs) auto

lemma levels_left_cutoff: "depth_cutoff cfg d \<Longrightarrow> levels_left cfg d = Some 0"
  by (auto simp: depth_cutoff_def levels_left_def split: option.splits)

lemma levels_left_step:
  "\<not> depth_cutoff cfg d \<Longrightarrow> levels_left cfg d \<noteq> Some 0
     \<and> map_option (\<lambda>n. n - 1) (levels_left cfg d) = levels_left cfg (d + 1)"
  by (auto simp: depth_cutoff_def levels_left_def split: option.splits)

lemma direct_tallies_Nil [simp]: "direct_tallies py cfg [] = zero_stats"
  by (simp add: direct_tallies_def zero_stats_def)


lemma direct_tallies_Cons:
  "direct_tallies py cfg (e # es) =
     add_stats
       (own_stats (is_dir e) (name_search py cfg (entry_name e) = Inr True)
          (fst (content_search py cfg e)))
       (direct_tallies py cfg es)"
  by (simp add: direct_tallies_def add_stats_def own_stats_def)

lemma same_stats_simps [simp]:
  "same_stats (Inl e1) r = (r = Inl e1)"
  "same_stats (Inr (l1, s1)) (Inl e2) = False"
  "same_stats (Inr (l1, s1)) (Inr (l2, s2)) = (s1 = s2)"
  by (cases r; auto simp: same_stats_def)+

lemma same_stats_append:
  assumes "same_stats v1 v2" and "same_stats r1 r2"
  shows "same_stats (append_results v1 r1) (append_results v2 r2)"
proof (cases v1)
  case (Inl err)
  with assms show ?thesis by simp
next
  case v1: (Inr a)
  obtain l1 s1 where a: "a = (l1, s1)" by (cases a)
  from assms(1) v1 a obtain l2 where v2: "v2 = Inr (l2, s1)"
    by (cases v2) auto
  show ?thesis
  proof (cases r1)
    case (Inl err)
    with assms v1 a v2 show ?thesis by simp
  next
    case r1: (Inr b)
    obtain m1 t1 where b: "b = (m1, t1)" by (cases b)
    from assms(2) r1 b obtain m2 where r2: "r2 = Inr (m2, t1)"
      by (cases r2) auto
    show ?thesis by (simp add: v1 a v2 r1 b r2)
  qed
qed

lemma same_stats_visit_entry:
  assumes "\<And>p p' dd. same_stats (walk_tree py cfg p dd e) (walk_tree py cfg p' dd e)"
  shows "same_stats (visit_entry py cfg pfx d is_last e)
                    (visit_entry py cfg pfx' d is_last' e)"
proof (cases "name_search py cfg (entry_name e)")
  case (Inl err)
  then show ?thesis by (simp add: visit_entry_def)
next
  case nm: (Inr name_matched)
  show ?thesis
  proof (cases "is_dir e")
    case False
    with nm show ?thesis by (simp add: visit_entry_def Let_def)
  next
    case True
    let ?p = "pfx @ (if is_last then SPACE else PIPE)"
    let ?p' = "pfx' @ (if is_last' then SPACE else PIPE)"
    note h = assms [of ?p "d + 1" ?p']
    show ?thesis
    proof (cases "walk_tree py cfg ?p (d + 1) e")
      case (Inl err)
      with h nm True show ?thesis by (simp add: visit_entry_def Let_def)
    next
      case w1: (Inr a)
      obtain l1 s1 where a: "a = (l1, s1)" by (cases a)
      from h w1 a obtain l2
        where w2: "walk_tree py cfg ?p' (d + 1) e = Inr (l2, s1)"
        by (cases "walk_tree py cfg ?p' (d + 1) e") auto
      show ?thesis
        using nm True w1 a w2 by (simp add: visit_entry_def Let_def)
    qed
  qed
qed

lemma same_stats_walk_entries:
  assumes "\<And>e p p' dd. e \<in> set es \<Longrightarrow>
             same_stats (walk_tree py cfg p dd e) (walk_tree py cfg p' dd e)"
  shows "same_stats (walk_entries py cfg pfx d es [] zero_stats)
                    (walk_entries py cfg pfx' d es [] zero_stats)"
  using assms
proof (induction es)
  case Nil
  show ?case by simp
next
  case (Cons e rest)
  have v: "same_stats (visit_entry py cfg pfx d (rest = []) e)
                      (visit_entry py cfg pfx' d (rest = []) e)"
    by (rule same_stats_visit_entry) (simp add: Cons.prems)
  have r: "same_stats (walk_entries py cfg pfx d rest [] zero_stats)
                      (walk_entries py cfg pfx' d rest [] zero_stats)"
    by (rule Cons.IH) (simp add: Cons.prems)
  show ?case
    unfolding walk_entries_Cons0 using v r by (rule same_stats_append)
qed

lemma same_stats_walk_tree:
  "same_stats (walk_tree py cfg pfx d node) (walk_tree py cfg pfx' d node)"
proof (induction node arbitrary: pfx pfx' d)
  case (File nm bs t)
  show ?case by (simp add: walk_tree.simps)
next
  case (Dir nm l)
  show ?case
  proof (cases l)
    case None
    then show ?thesis by (simp add: walk_tree.simps)
  next
    case (Some cs)
    have "same_stats
            (walk_entries py cfg pfx d (list_entries py cfg cs) [] zero_stats)
            (walk_entries py cfg pfx' d (list_entries py cfg cs) [] zero_stats)"
    proof (rule same_stats_walk_entries)
      fix e p p' dd
      assume "e \<in> set (list_entries py cfg cs)"
      then have "e \<in> set cs" using set_list_entries by blast
      then show "same_stats (walk_tree py cfg p dd e) (walk_tree py cfg p' dd e)"
        using Dir.IH [of cs e p dd p'] Some by simp
    qed
    then show ?thesis using Some by (simp add: walk_tree.simps [of _ _ _ _ "Dir nm (Some cs)"])
  qed
qed

lemma walk_tree_any_prefix:
  "walk_tree py cfg pfx d node = Inr (ls, st)
     \<Longrightarrow> \<exists>l. walk_tree py cfg p d node = Inr (l, st)"
  using same_stats_walk_tree [of py cfg pfx d node p]
  by (cases "walk_tree py cfg p d node") auto

lemma visit_entry_Inr:
  assumes "visit_entry py cfg pfx d is_last e = Inr (l1, s1)"
  shows "if is_dir e
         then \<exists>sl ss. walk_tree py cfg (pfx @ (if is_last then SPACE else PIPE)) (d + 1) e
                         = Inr (sl, ss)
                \<and> s1 = add_stats
                         (own_stats True (name_search py cfg (entry_name e) = Inr True)
                            (fst (content_search py cfg e))) ss
         else s1 = own_stats False (name_search py cfg (entry_name e) = Inr True)
                     (fst (content_search py cfg e))"
  using assms
  by (auto simp: visit_entry_def Let_def split: sum.splits prod.splits if_splits)

lemma walk_entries_merge:
  "walk_entries py cfg pfx d es [] zero_stats = Inr (ls, st) \<Longrightarrow>
     \<exists>subs. list_all2 (\<lambda>c s. \<forall>p. \<exists>l. walk_tree py cfg p (d + 1) c = Inr (l, s))
               (filter is_dir es) subs
          \<and> st = add_stats (direct_tallies py cfg es) (sum_stats subs)"
proof (induction es arbitrary: ls st)
  case Nil
  then show ?case by (auto simp: sum_stats_def)
next
  case (Cons e rest)
  from Cons.prems obtain l1 s1 l2 s2 where
    v: "visit_entry py cfg pfx d (rest = []) e = Inr (l1, s1)" and
    r: "walk_entries py cfg pfx d rest [] zero_stats = Inr (l2, s2)" and
    st: "st = add_stats s1 s2"
    unfolding walk_entries_Cons0 append_results_Inr by blast
  from Cons.IH [OF r] obtain subs where
    a: "list_all2 (\<lambda>c s. \<forall>p. \<exists>l. walk_tree py cfg p (d + 1) c = Inr (l, s))
          (filter is_dir rest) subs" and
    s2: "s2 = add_stats (direct_tallies py cfg rest) (sum_stats subs)"
    by blast
  let ?own = "own_stats (is_dir e) (name_search py cfg (entry_name e) = Inr True)
                (fst (content_search py cfg e))"
  show ?case
  proof (cases "is_dir e")
    case False
    with visit_entry_Inr [OF v] have s1: "s1 = ?own" by simp
    have "st = add_stats (direct_tallies py cfg (e # rest)) (sum_stats subs)"
      by (simp add: st s1 s2 direct_tallies_Cons add_stats_assoc)
    with a False show ?thesis by auto
  next
    case True
    with visit_entry_Inr [OF v] obtain sl ss where
      w: "walk_tree py cfg (pfx @ (if rest = [] then SPACE else PIPE)) (d + 1) e
            = Inr (sl, ss)" and
      s1: "s1 = add_stats ?own ss"
      by auto
    have w': "\<forall>p. \<exists>l. walk_tree py cfg p (d + 1) e = Inr (l, ss)"
      using walk_tree_any_prefix [OF w] by blast
    have "st = add_stats (direct_tallies py cfg (e # rest)) (sum_stats (ss # subs))"
      by (simp add: st s1 s2 direct_tallies_Cons sum_stats_def add_stats_def)
    moreover have "list_all2 (\<lambda>c s. \<forall>p. \<exists>l. walk_tree py cfg p (d + 1) c = Inr (l, s))
          (filter is_dir (e # rest)) (ss # subs)"
      using a w' True by simp
    ultimately show ?thesis by blast
  qed
qed


lemma descendants_within_file: "\<not> is_dir e \<Longrightarrow> descendants_within cfg lv e = []"
  by (cases e) auto

lemma walk_entries_count:
  assumes "\<And>e p l s. e \<in> set es \<Longrightarrow> walk_tree py cfg p (d + 1) e = Inr (l, s) \<Longrightarrow>
             dirs s = length (filter is_dir (descendants_within cfg lv e))
           \<and> files s = length (filter (\<lambda>x. \<not> is_dir x) (descendants_within cfg lv e))"
    and "walk_entries py cfg pfx d es [] zero_stats = Inr (ls, st)"
  shows "dirs st = sum_list (map (\<lambda>e. length (filter is_dir (e # descendants_within cfg lv e))) es)
       \<and> files st = sum_list (map (\<lambda>e. length (filter (\<lambda>x. \<not> is_dir x)
                                  (e # descendants_within cfg lv e))) es)"
  using assms
proof (induction es arbitrary: ls st)
  case Nil
  then show ?case by (auto simp: zero_stats_def)
next
  case (Cons e rest)
  from Cons.prems(2) obtain l1 s1 l2 s2 where
    v: "visit_entry py cfg pfx d (rest = []) e = Inr (l1, s1)" and
    r: "walk_entries py cfg pfx d rest [] zero_stats = Inr (l2, s2)" and
    st: "st = add_stats s1 s2"
    unfolding walk_entries_Cons0 append_results_Inr by blast
  have b: "dirs s2 = sum_list (map (\<lambda>e. length (filter is_dir (e # descendants_within cfg lv e))) rest)
       \<and> files s2 = sum_list (map (\<lambda>e. length (filter (\<lambda>x. \<not> is_dir x)
                                  (e # descendants_within cfg lv e))) rest)"
  proof (rule Cons.IH [OF _ r])
    show "\<And>e p l s. e \<in> set rest \<Longrightarrow> walk_tree py cfg p (d + 1) e = Inr (l, s) \<Longrightarrow>
             dirs s = length (filter is_dir (descendants_within cfg lv e))
           \<and> files s = length (filter (\<lambda>x. \<not> is_dir x) (descendants_within cfg lv e))"
      using Cons.prems(1) by (meson list.set_intros(2))
  qed
  have a: "dirs s1 = length (filter is_dir (e # descendants_within cfg lv e))
         \<and> files s1 = length (filter (\<lambda>x. \<not> is_dir x) (e # descendants_within cfg lv e))"
  proof (cases "is_dir e")
    case False
    with visit_entry_Inr [OF v] show ?thesis
      by (simp add: own_stats_def descendants_within_file)
  next
    case True
    with visit_entry_Inr [OF v] obtain sl ss where
      w: "walk_tree py cfg (pfx @ (if rest = [] then SPACE else PIPE)) (d + 1) e
            = Inr (sl, ss)" and
      s1: "s1 = add_stats
                  (own_stats True (name_search py cfg (entry_name e) = Inr True)
                     (fst (content_search py cfg e))) ss"
      by auto
    from Cons.prems(1) [OF _ w] True s1 show ?thesis
      by (simp add: add_stats_def own_stats_def)
  qed
  from a b st show ?case by (simp add: add_stats_def)
qed

lemma walk_tree_count:
  "walk_tree py cfg pfx d node = Inr (ls, st) \<Longrightarrow>
     dirs st = length (filter is_dir (descendants_within cfg (levels_left cfg d) node))
   \<and> files st = length (filter (\<lambda>x. \<not> is_dir x)
                          (descendants_within cfg (levels_left cfg d) node))"
proof (induction node arbitrary: pfx d ls st)
  case (File nm bs t)
  then show ?case by (auto simp: walk_tree.simps zero_stats_def split: if_splits)
next
  case (Dir nm l)
  show ?case
  proof (cases "depth_cutoff cfg d")
    case True
    with Dir.prems have "st = zero_stats" by (auto simp: walk_tree.simps)
    moreover have "descendants_within cfg (levels_left cfg d) (Dir nm l) = []"
      using levels_left_cutoff [OF True] by (cases l) auto
    ultimately show ?thesis by (simp add: zero_stats_def)
  next
    case nc: False
    show ?thesis
    proof (cases l)
      case None
      with Dir.prems nc show ?thesis by (auto simp: walk_tree.simps zero_stats_def)
    next
      case (Some cs)
      let ?lv = "levels_left cfg (d + 1)"
      from Dir.prems nc Some have
        w: "walk_entries py cfg pfx d (list_entries py cfg cs) [] zero_stats = Inr (ls, st)"
        by (simp add: walk_tree.simps)
      have ih: "\<And>e p l s. e \<in> set (list_entries py cfg cs) \<Longrightarrow>
             walk_tree py cfg p (d + 1) e = Inr (l, s) \<Longrightarrow>
             dirs s = length (filter is_dir (descendants_within cfg ?lv e))
           \<and> files s = length (filter (\<lambda>x. \<not> is_dir x) (descendants_within cfg ?lv e))"
      proof -
        fix e p l' s
        assume "e \<in> set (list_entries py cfg cs)"
          and "walk_tree py cfg p (d + 1) e = Inr (l', s)"
        moreover have "e \<in> set cs" using calculation(1) set_list_entries by blast
        ultimately show "dirs s = length (filter is_dir (descendants_within cfg ?lv e))
           \<and> files s = length (filter (\<lambda>x. \<not> is_dir x) (descendants_within cfg ?lv e))"
          using Dir.IH [of cs e p "d + 1" l' s] Some by simp
      qed
      have dw: "descendants_within cfg (levels_left cfg d) (Dir nm l) =
                  concat (map (\<lambda>c. c # descendants_within cfg ?lv c) (filter (counted cfg) cs))"
        using levels_left_step [OF nc] Some by simp
      from walk_entries_count [OF ih w]
      show ?thesis
        unfolding dw length_filter_concat list_entries_sort_counted sum_list_sort_key
        by simp
    qed
  qed
qed

text \<open>
  Claim C1. The statistics a walk returns are a full-subtree aggregate. The numbers of
  directories and of files are those of the descendants reachable within the levels
  that \<open>max_depth\<close> leaves: hidden entries left out unless \<open>show_hidden\<close>, files left
  out under \<open>dirs_only\<close>; so their sum is the number of these descendants. After the
  merge, the statistics of a listed directory are the direct tallies of its entries
  plus the statistics that the walks of its child directories return.
\<close>

theorem walk_tree_stats_aggregate:
  assumes "walk_tree py cfg pfx d directory = Inr (ls, st)"
  shows "dirs st + files st = length (descendants_within cfg (levels_left cfg d) directory)
       \<and> dirs st = length (filter is_dir (descendants_within cfg (levels_left cfg d) directory))
       \<and> files st = length (filter (\<lambda>e. \<not> is_dir e)
                              (descendants_within cfg (levels_left cfg d) directory))
       \<and> (directory = Dir nm (Some children) \<and> \<not> depth_cutoff cfg d \<longrightarrow>
            (\<exists>subs.
               list_all2 (\<lambda>c s. \<forall>p. \<exists>l. walk_tree py cfg p (d + 1) c = Inr (l, s))
                 (filter is_dir (list_entries py cfg children)) subs
               \<and> st = add_stats (direct_tallies py cfg (list_entries py cfg children))
                        (sum_stats subs)))"
proof -
  note c = walk_tree_count [OF assms]
  have "length (filter is_dir (descendants_within cfg (levels_left cfg d) directory))
        + length (filter (\<lambda>e. \<not> is_dir e) (descendants_within cfg (levels_left cfg d) directory))
        = length (descendants_within cfg (levels_left cfg d) directory)"
    by (rule sum_length_filter_compl)
  with c have t: "dirs st + files st
                  = length (descendants_within cfg (levels_left cfg d) directory)"
    by simp
  have m: "directory = Dir nm (Some children) \<and> \<not> depth_cutoff cfg d \<longrightarrow>
            (\<exists>subs.
               list_all2 (\<lambda>c s. \<forall>p. \<exists>l. walk_tree py cfg p (d + 1) c = Inr (l, s))
                 (filter is_dir (list_entries py cfg children)) subs
               \<and> st = add_stats (direct_tallies py cfg (list_entries py cfg children))
                        (sum_stats subs))"
  proof
    assume a: "directory = Dir nm (Some children) \<and> \<not> depth_cutoff cfg d"
    with assms have
      "walk_entries py cfg pfx d (list_entries py cfg children) [] zero_stats = Inr (ls, st)"
      by (simp add: walk_tree.simps)
    then show "\<exists>subs.
               list_all2 (\<lambda>c s. \<forall>p. \<exists>l. walk_tree py cfg p (d + 1) c = Inr (l, s))
                 (filter is_dir (list_entries py cfg children)) subs
               \<and> st = add_stats (direct_tallies py cfg (list_entries py cfg children))
                        (sum_stats subs)"
      by (rule walk_entries_merge)
  qed
  from c t m show ?thesis by blast
qed


theorem walk_tree_stats_aggregate_witness:
  "map_sum id snd (walk_tree plain_python hello_config [] 0 sample_tree) =
     Inr \<lparr>dirs = 1, files = 4, name_matches = 0, content_matches = 1\<rparr>
   \<and> length (descendants_within hello_config (levels_left hello_config 0) sample_tree) = 5
   \<and> \<not> depth_cutoff hello_config 0
   \<and> direct_tallies plain_python hello_config (list_entries plain_python hello_config (the (listing sample_tree)))
       = \<lparr>dirs = 1, files = 3, name_matches = 0, content_matches = 0\<rparr>
   \<and> (\<exists>subs.
         list_all2 (\<lambda>c s. \<forall>p. \<exists>l. walk_tree plain_python hello_config p (0 + 1) c = Inr (l, s))
           (filter is_dir (list_entries plain_python hello_config (the (listing sample_tree)))) subs
         \<and> \<lparr>dirs = 1, files = 4, name_matches = 0, content_matches = 1\<rparr> =
             add_stats
               (direct_tallies plain_python hello_config
                  (list_entries plain_python hello_config (the (listing sample_tree))))
               (sum_stats subs))"
proof -
  let ?st = "\<lparr>dirs = 1, files = 4, name_matches = 0, content_matches = 1\<rparr>"
  have w: "map_sum id snd (walk_tree plain_python hello_config [] 0 sample_tree) = Inr ?st"
    by code_simp
  then obtain ls where r: "walk_tree plain_python hello_config [] 0 sample_tree = Inr (ls, ?st)"
    by (cases "walk_tree plain_python hello_config [] 0 sample_tree") auto
  have n: "\<not> depth_cutoff hello_config 0" by code_simp
  have d: "direct_tallies plain_python hello_config
             (list_entries plain_python hello_config (the (listing sample_tree)))
           = \<lparr>dirs = 1, files = 3, name_matches = 0, content_matches = 0\<rparr>"
    by code_simp
  have e: "sample_tree = Dir ''root'' (Some (the (listing sample_tree)))"
    by (simp add: sample_tree_def)
  note t = walk_tree_stats_aggregate [OF r, of "''root''" "the (listing sample_tree)"]
  from t have "length (descendants_within hello_config (levels_left hello_config 0) sample_tree) = 5"
    by simp
  with t w n d e show ?thesis by blast
qed

subsection \<open>Exceptions that leave the walker\<close>

lemma name_search_error:
  "name_pattern cfg = Some p \<Longrightarrow> p \<noteq> [] \<Longrightarrow> is_regex cfg
     \<Longrightarrow> re_compile py p (ignore_case cfg) = None
     \<Longrightarrow> name_search py cfg nm = Inl Re_error"
  by (simp add: name_search_def compile_pattern_def)

lemma name_search_cases:
  "name_search py cfg nm = Inl Re_error \<or> (\<exists>b. name_search py cfg nm = Inr b)"
  by (auto simp: name_search_def split: option.splits)

lemma name_search_error_any_name:
  "name_search py cfg nm = Inl err \<Longrightarrow> name_search py cfg nm' = Inl err"
  by (auto simp: name_search_def split: option.splits if_splits)

text \<open>
  The only exception that leaves a walk of a directory is the \<open>re.error\<close> of the
  name pattern: when the name search of some name returns, every walk of a directory
  returns.
\<close>

lemma walk_entries_returns:
  assumes "\<And>e p dd. e \<in> set es \<Longrightarrow> is_dir e \<Longrightarrow> \<exists>r. walk_tree py cfg p dd e = Inr r"
    and "name_search py cfg nm0 = Inr b0"
  shows "\<exists>r. walk_entries py cfg pfx d es [] zero_stats = Inr r"
  using assms(1)
proof (induction es)
  case Nil
  show ?case by simp
next
  case (Cons e rest)
  from assms(2) obtain b where nm: "name_search py cfg (entry_name e) = Inr b"
    using name_search_cases [of py cfg "entry_name e"]
      name_search_error_any_name [of py cfg "entry_name e" Re_error nm0]
    by auto
  have "\<exists>r. visit_entry py cfg pfx d (rest = []) e = Inr r"
  proof (cases "is_dir e")
    case False
    with nm show ?thesis by (simp add: visit_entry_def Let_def)
  next
    case True
    from Cons.prems [of e "pfx @ (if rest = [] then SPACE else PIPE)" "d + 1"] True
    obtain sl ss where
      "walk_tree py cfg (pfx @ (if rest = [] then SPACE else PIPE)) (d + 1) e = Inr (sl, ss)"
      by auto
    with nm True show ?thesis by (simp add: visit_entry_def Let_def)
  qed
  moreover have "\<exists>r. walk_entries py cfg pfx d rest [] zero_stats = Inr r"
    by (rule Cons.IH) (meson Cons.prems list.set_intros(2))
  ultimately show ?case
    unfolding walk_entries_Cons0 by (auto simp: append_results_def split: prod.splits)
qed

lemma walk_tree_returns:
  assumes "name_search py cfg nm0 = Inr b0"
  shows "is_dir node \<Longrightarrow> \<exists>r. walk_tree py cfg pfx d node = Inr r"
proof (induction node arbitrary: pfx d)
  case (File nm bs t)
  then show ?case by simp
next
  case (Dir nm l)
  show ?case
  proof (cases l)
    case None
    then show ?thesis by (simp add: walk_tree.simps)
  next
    case (Some cs)
    have "\<exists>r. walk_entries py cfg pfx d (list_entries py cfg cs) [] zero_stats = Inr r"
    proof (rule walk_entries_returns [OF _ assms])
      fix e p dd
      assume "e \<in> set (list_entries py cfg cs)" and "is_dir e"
      moreover have "e \<in> set cs" using calculation(1) set_list_entries by blast
      ultimately show "\<exists>r. walk_tree py cfg p dd e = Inr r"
        using Dir.IH [of cs e p dd] Some by simp
    qed
    then show ?thesis using Some by (simp add: walk_tree.simps [of _ _ _ _ "Dir nm (Some cs)"])
  qed
qed

text \<open>
  Claim C3 says that no exception leaves the walker, for any string given as the name
  pattern in regex mode. The code does otherwise. The pre-flight check of \<open>main\<close>
  compiles \<open>args.search or args.name\<close>, one pattern only; when a search pattern that
  compiles comes with a name pattern that does not, the check passes, and the
  \<open>re.compile\<close> of the name search, which no \<open>try\<close> guards, raises \<open>re.error\<close> out
  of \<open>walk_tree\<close> and out of \<open>main\<close> at the first entry of the listed directory.
  (\<open>search_file\<close> catches the same error, and \<open>walk_tree_returns\<close> above shows that
  nothing else leaves a walk of a directory.)
\<close>

theorem unchecked_name_regex_escapes:
  assumes "search_pattern cfg = Some s" and "s \<noteq> []" and "re_compile py s False \<noteq> None"
    and "name_pattern cfg = Some p" and "p \<noteq> []" and "is_regex cfg"
    and "re_compile py p (ignore_case cfg) = None"
    and "\<not> depth_cutoff cfg 0" and "list_entries py cfg children \<noteq> []"
  shows "walk_tree py cfg [] 0 (Dir nm (Some children)) = Inl Re_error
       \<and> main py cfg (Dir nm (Some children)) = Inl Re_error"
proof -
  from assms(9) obtain e rest where es: "list_entries py cfg children = e # rest"
    by (cases "list_entries py cfg children") auto
  have n: "name_search py cfg (entry_name e) = Inl Re_error"
    using assms(4-7) by (rule name_search_error)
  have w: "walk_tree py cfg [] 0 (Dir nm (Some children)) = Inl Re_error"
    using assms(8) es n
    by (simp add: walk_tree.simps walk_entries_Cons visit_entry_def)
  have "main py cfg (Dir nm (Some children)) =
          walk_tree py cfg [] 0 (Dir nm (Some children))"
    using assms(1-3) by (auto simp: main_def)
  with w show ?thesis by simp
qed

theorem unchecked_name_regex_escapes_witness:
  "search_pattern both_patterns_config = Some ''foo''
   \<and> re_compile plain_python ''foo'' False \<noteq> None
   \<and> name_pattern both_patterns_config = Some ''(''
   \<and> is_regex both_patterns_config
   \<and> re_compile plain_python ''('' (ignore_case both_patterns_config) = None
   \<and> main plain_python both_patterns_config (Dir ''root'' (Some [text_file ''a.txt'' ''foo'']))
       = Inl Re_error
   \<and> main plain_python (both_patterns_config\<lparr>search_pattern := None\<rparr>)
        (Dir ''root'' (Some [text_file ''a.txt'' ''foo''])) = Inl System_exit
   \<and> fst (search_file plain_python (text_file ''a.txt'' ''foo'') ''('' True False) = 0"
proof -
  have a: "search_pattern both_patterns_config = Some ''foo''" by code_simp
  have b: "re_compile plain_python ''foo'' False \<noteq> None" by code_simp
  have c: "name_pattern both_patterns_config = Some ''(''" by code_simp
  have d: "is_regex both_patterns_config" by code_simp
  have e: "re_compile plain_python ''('' (ignore_case both_patterns_config) = None" by code_simp
  have f: "\<not> depth_cutoff both_patterns_config 0" by code_simp
  have g: "list_entries plain_python both_patterns_config [text_file ''a.txt'' ''foo''] \<noteq> []" by code_simp
  have h: "main plain_python (both_patterns_config\<lparr>search_pattern := None\<rparr>)
        (Dir ''root'' (Some [text_file ''a.txt'' ''foo''])) = Inl System_exit"
    by code_simp
  have i: "fst (search_file plain_python (text_file ''a.txt'' ''foo'') ''('' True False) = 0"
    by code_simp
  note t = unchecked_name_regex_escapes [OF a _ b c _ d e f g, of "''root''"]
  show ?thesis using t a b c d e h i by simp
qed

subsection \<open>Counting matches\<close>

lemma set_occurrences:
  assumes "k \<noteq> []"
  shows "p \<in> set (occurrences ic k s) \<longleftrightarrow> matches_at ic k (drop p s)"
proof (cases "p \<le> length s")
  case True
  then show ?thesis by (simp add: occurrences_def less_Suc_eq_le del: upt_Suc)
next
  case False
  then have "\<not> matches_at ic k (drop p s)" using assms by (simp add: matches_at_def)
  with False show ?thesis by (simp add: occurrences_def del: upt_Suc)
qed

lemma findall_literal_none:
  "k \<noteq> [] \<Longrightarrow> (\<And>p. \<not> matches_at ic k (drop p s)) \<Longrightarrow> findall_literal ic k s = []"
proof (induction s)
  case Nil
  then show ?case by (simp add: findall_literal.simps)
next
  case (Cons c s)
  have "\<not> matches_at ic k (c # s)" using Cons.prems(2) [of 0] by simp
  moreover have "findall_literal ic k s = []"
  proof (rule Cons.IH [OF Cons.prems(1)])
    fix p show "\<not> matches_at ic k (drop p s)" using Cons.prems(2) [of "Suc p"] by simp
  qed
  ultimately show ?case using Cons.prems(1) by (simp add: findall_literal.simps [of ic k "c # s"])
qed

lemma findall_literal_first:
  "k \<noteq> [] \<Longrightarrow> matches_at ic k (drop i s) \<Longrightarrow> (\<And>p. p < i \<Longrightarrow> \<not> matches_at ic k (drop p s))
     \<Longrightarrow> findall_literal ic k s =
           take (length k) (drop i s) # findall_literal ic k (drop (i + length k) s)"
proof (induction i arbitrary: s)
  case 0
  then have "s \<noteq> []" by (auto simp: matches_at_def)
  with 0 show ?case by (simp add: findall_literal.simps [of ic k s] add.commute)
next
  case (Suc i)
  from Suc.prems(1,2) have ne: "s \<noteq> []" by (auto simp: matches_at_def)
  then obtain c t where s: "s = c # t" by (cases s) auto
  have nm: "\<not> matches_at ic k s" using Suc.prems(3) [of 0] by simp
  have "findall_literal ic k t =
          take (length k) (drop i t) # findall_literal ic k (drop (i + length k) t)"
  proof (rule Suc.IH [OF Suc.prems(1)])
    show "matches_at ic k (drop i t)" using Suc.prems(2) s by simp
    fix p assume "p < i"
    then show "\<not> matches_at ic k (drop p t)" using Suc.prems(3) [of "Suc p"] s by simp
  qed
  with nm Suc.prems(1) s show ?case by (simp add: findall_literal.simps [of ic k "c # t"])
qed

lemma findall_literal_once:
  assumes "k \<noteq> []" and "occurrences ic k s = [q]"
  shows "length (findall_literal ic k s) = 1"
proof -
  have o: "matches_at ic k (drop p s) \<longleftrightarrow> p = q" for p
    using set_occurrences [OF assms(1), of p ic s] assms(2) by simp
  have "findall_literal ic k s =
          take (length k) (drop q s) # findall_literal ic k (drop (q + length k) s)"
    by (rule findall_literal_first [OF assms(1)]) (simp_all add: o)
  moreover have "findall_literal ic k (drop (q + length k) s) = []"
  proof (rule findall_literal_none [OF assms(1)])
    fix p
    have "p + (q + length k) \<noteq> q" using assms(1) by simp
    then show "\<not> matches_at ic k (drop p (drop (q + length k) s))"
      using o [of "p + (q + length k)"] by simp
  qed
  ultimately show ?thesis by simp
qed

lemma findall_literal_twice:
  assumes "k \<noteq> []" and "occurrences ic k s = [i, j]" and "i + length k \<le> j"
  shows "length (findall_literal ic k s) = 2"
proof -
  have o: "matches_at ic k (drop p s) \<longleftrightarrow> p = i \<or> p = j" for p
    using set_occurrences [OF assms(1), of p ic s] assms(2) by simp
  have lt: "i < j" using assms(1,3) by (cases k) auto
  have a: "findall_literal ic k s =
          take (length k) (drop i s) # findall_literal ic k (drop (i + length k) s)"
    by (rule findall_literal_first [OF assms(1)]) (use lt in \<open>auto simp: o\<close>)
  let ?s = "drop (i + length k) s"
  have o'': "matches_at ic k (drop (p + (i + length k)) s) \<longleftrightarrow> p = j - (i + length k)" for p
    using o [of "p + (i + length k)"] assms(1,3) by (cases k) auto
  have o': "matches_at ic k (drop p ?s) \<longleftrightarrow> p = j - (i + length k)" for p
    using o'' [of p] by simp
  have b: "findall_literal ic k ?s =
          take (length k) (drop (j - (i + length k)) ?s)
          # findall_literal ic k (drop (j - (i + length k) + length k) ?s)"
    by (rule findall_literal_first [OF assms(1)]) (simp_all add: o'')
  have "findall_literal ic k (drop (j - (i + length k) + length k) ?s) = []"
  proof (rule findall_literal_none [OF assms(1)])
    fix p
    have "p + (j - (i + length k) + length k) \<noteq> j - (i + length k)" using assms(1) by simp
    then show "\<not> matches_at ic k (drop p (drop (j - (i + length k) + length k) ?s))"
      using o'' [of "p + (j - (i + length k) + length k)"] by (simp add: add.assoc)
  qed
  with a b show ?thesis by simp
qed


text \<open>What the two loops of \<open>search_file\<close> count.\<close>

lemma fst_scan_line:
  "fst (scan_line py cps line acc) = fst acc + sum_list (map (\<lambda>cp. length (findall cp line)) cps)"
proof (induction cps arbitrary: acc)
  case Nil
  show ?case by (cases acc) simp
next
  case (Cons cp cps)
  obtain mc fs where acc: "acc = (mc, fs)" by (cases acc)
  show ?case
    by (cases "findall cp line") (simp_all add: acc Cons.IH)
qed

lemma fst_scan_lines:
  "fst (scan_lines py cps ls acc) =
     fst acc + sum_list (map (\<lambda>line. sum_list (map (\<lambda>cp. length (findall cp line)) cps)) ls)"
  by (induction ls arbitrary: acc) (simp_all add: fst_scan_line)

lemma compile_all_literal:
  "compile_all py False ic ks = Some (map (literal_pattern py ic) ks)"
  by (induction ks) (simp_all add: compile_pattern_def)

lemma search_file_scans:
  assumes "filepath = File nm (Some bs) (Some txt)"
    and "extension py filepath \<notin> set EXCLUDE_EXTENSIONS"
    and "CHR 0x00 \<notin> set (take 1024 bs)"
  shows "search_file py filepath pat rx ic =
           (case compile_all py rx ic (if rx then [pat] else split_keywords py pat) of
              None \<Rightarrow> (0, [])
            | Some cps \<Rightarrow> scan_lines py cps (readlines txt) (0, []))"
  using assms
  by (simp add: search_file_def is_binary_file_def read_bytes_def read_text_def Let_def)

lemma search_file_literal_count:
  assumes "filepath = File nm (Some bs) (Some txt)"
    and "extension py filepath \<notin> set EXCLUDE_EXTENSIONS"
    and "CHR 0x00 \<notin> set (take 1024 bs)"
  shows "fst (search_file py filepath pat False ic) =
           sum_list (map (\<lambda>line. sum_list (map (\<lambda>k. length (findall (literal_pattern py ic k) line))
                                              (split_keywords py pat)))
                      (readlines txt))"
  by (simp add: search_file_scans [OF assms] compile_all_literal fst_scan_lines comp_def)

lemma findall_literal_pattern:
  "\<not> ic \<or> (is_ascii k \<and> is_ascii s)
     \<Longrightarrow> findall (literal_pattern py ic k) s = findall_literal ic k s"
  by (auto simp: literal_pattern_def)

lemma readlines_ascii: "is_ascii t \<Longrightarrow> l \<in> set (readlines t) \<Longrightarrow> is_ascii l"
  by (induction t arbitrary: l) (auto simp: is_ascii_def split: if_splits list.splits)

lemma split_on_absent: "d \<notin> set s \<Longrightarrow> split_on d s = [s]"
  by (induction s) auto

lemma split_keywords_single:
  "k \<noteq> [] \<Longrightarrow> CHR '','' \<notin> set k \<Longrightarrow> strip py k = k \<Longrightarrow> split_keywords py k = [k]"
  by (simp add: split_keywords_def split_on_absent)


lemma name_search_literal:
  "\<not> is_regex cfg \<Longrightarrow> \<exists>b. name_search py cfg nm = Inr b"
  by (cases "name_pattern cfg") (auto simp: name_search_def compile_pattern_def)


text \<open>
  Claim C4. \<open>search_file\<close> returns the sum, over the lines and over the compiled
  patterns, of the number of matches \<open>findall\<close> gives. For a text file of three lines,
  each holding the literal keyword at exactly two positions that do not overlap,
  \<open>search_file\<close> in non-regex mode returns the count 6, and the loop of the walker
  adds exactly 1 to \<open>content_matches\<close> for that file. (The file is one that is read:
  its extension is not excluded, both reads succeed and its first 1024 bytes hold no
  null byte; the keyword is one keyword: not empty, without a comma, left as it is by
  \<open>strip\<close>. Without \<open>ignore_case\<close> the keyword and the text are any text; with it
  they are ASCII, and the positions are those of the keyword with the letters folded.)
\<close>

theorem content_match_counting:
  assumes "filepath = File nm (Some bs) (Some txt)"
    and "extension py filepath \<notin> set EXCLUDE_EXTENSIONS"
    and "CHR 0x00 \<notin> set (take 1024 bs)"
  shows "(compile_all py rx ic (if rx then [pat] else split_keywords py pat) = Some cps \<longrightarrow>
            fst (search_file py filepath pat rx ic) =
              sum_list (map (\<lambda>line. sum_list (map (\<lambda>cp. length (findall cp line)) cps))
                         (readlines txt)))
       \<and> (k \<noteq> [] \<and> CHR '','' \<notin> set k \<and> strip py k = k
            \<and> (ic \<longrightarrow> is_ascii k \<and> is_ascii txt)
            \<and> readlines txt = [l1, l2, l3]
            \<and> (\<forall>l \<in> {l1, l2, l3}. \<exists>i j. occurrences ic k l = [i, j] \<and> i + length k \<le> j)
          \<longrightarrow> fst (search_file py filepath k False ic) = 6
              \<and> (search_pattern cfg = Some k \<and> \<not> is_regex cfg \<and> ignore_case cfg = ic \<longrightarrow>
                   (\<exists>l name_matched.
                      walk_entries py cfg pfx d (filepath # rest) lines st =
                        walk_entries py cfg pfx d rest (lines @ l)
                          (st\<lparr>files := files st + 1,
                              name_matches := name_matches st + (if name_matched then 1 else 0),
                              content_matches := content_matches st + 1\<rparr>))))"
proof (intro conjI impI)
  assume "compile_all py rx ic (if rx then [pat] else split_keywords py pat) = Some cps"
  then show "fst (search_file py filepath pat rx ic) =
              sum_list (map (\<lambda>line. sum_list (map (\<lambda>cp. length (findall cp line)) cps))
                         (readlines txt))"
    by (simp add: search_file_scans [OF assms] fst_scan_lines)
next
  assume h: "k \<noteq> [] \<and> CHR '','' \<notin> set k \<and> strip py k = k
            \<and> (ic \<longrightarrow> is_ascii k \<and> is_ascii txt)
            \<and> readlines txt = [l1, l2, l3]
            \<and> (\<forall>l \<in> {l1, l2, l3}. \<exists>i j. occurrences ic k l = [i, j] \<and> i + length k \<le> j)"
  have two: "length (findall (literal_pattern py ic k) l) = 2" if l: "l \<in> {l1, l2, l3}" for l
  proof -
    from l h have "l \<in> set (readlines txt)" by auto
    with h have "\<not> ic \<or> (is_ascii k \<and> is_ascii l)" using readlines_ascii by blast
    then have "findall (literal_pattern py ic k) l = findall_literal ic k l"
      by (rule findall_literal_pattern)
    moreover have "length (findall_literal ic k l) = 2"
      using h l findall_literal_twice [of k ic l] by blast
    ultimately show ?thesis by simp
  qed
  from h have sk: "split_keywords py k = [k]" by (simp add: split_keywords_single)
  show six: "fst (search_file py filepath k False ic) = 6"
    using h two by (simp add: search_file_literal_count [OF assms] sk)
  assume c: "search_pattern cfg = Some k \<and> \<not> is_regex cfg \<and> ignore_case cfg = ic"
  have nd: "\<not> is_dir filepath" using assms(1) by simp
  have cs: "fst (content_search py cfg filepath) = 6"
    using c h nd six by (simp add: content_search_def)
  have "\<exists>b. name_search py cfg (entry_name filepath) = Inr b"
    using c by (simp add: name_search_literal)
  then obtain b where nm: "name_search py cfg (entry_name filepath) = Inr b" ..
  show "\<exists>l name_matched.
          walk_entries py cfg pfx d (filepath # rest) lines st =
            walk_entries py cfg pfx d rest (lines @ l)
              (st\<lparr>files := files st + 1,
                  name_matches := name_matches st + (if name_matched then 1 else 0),
                  content_matches := content_matches st + 1\<rparr>)"
  proof (intro exI)
    show "walk_entries py cfg pfx d (filepath # rest) lines st =
            walk_entries py cfg pfx d rest
              (lines @ (if \<not> match_only cfg \<or> b \<or> 0 < fst (content_search py cfg filepath)
                        then [entry_line py cfg pfx (rest = []) filepath b] else []))
              (st\<lparr>files := files st + 1,
                  name_matches := name_matches st + (if b then 1 else 0),
                  content_matches := content_matches st + 1\<rparr>)"
      using nd nm cs
      by (cases st) (simp add: walk_entries_Cons visit_entry_def Let_def add_stats_def own_stats_def)
  qed
qed


theorem content_match_counting_witness:
  "readlines three_lines = [''ab ab'' @ [CHR 0x0A], ''xabab'' @ [CHR 0x0A], ''ab, ab.'' @ [CHR 0x0A]]
   \<and> occurrences False ''ab'' (''ab ab'' @ [CHR 0x0A]) = [0, 3]
   \<and> occurrences False ''ab'' (''xabab'' @ [CHR 0x0A]) = [1, 3]
   \<and> occurrences False ''ab'' (''ab, ab.'' @ [CHR 0x0A]) = [0, 4]
   \<and> fst (search_file plain_python (text_file ''notes.txt'' three_lines) ''ab'' False False) = 6
   \<and> (\<exists>l name_matched.
         walk_entries plain_python ab_config [] 0 [text_file ''notes.txt'' three_lines] [] zero_stats
           = Inr (l, zero_stats\<lparr>files := files zero_stats + 1,
                       name_matches := name_matches zero_stats + (if name_matched then 1 else 0),
                       content_matches := content_matches zero_stats + 1\<rparr>))
   \<and> is_ascii ''AB'' \<and> is_ascii three_lines
   \<and> occurrences True ''AB'' (''ab ab'' @ [CHR 0x0A]) = [0, 3]
   \<and> occurrences True ''AB'' (''xabab'' @ [CHR 0x0A]) = [1, 3]
   \<and> occurrences True ''AB'' (''ab, ab.'' @ [CHR 0x0A]) = [0, 4]
   \<and> fst (search_file plain_python (text_file ''notes.txt'' three_lines) ''AB'' False True) = 6
   \<and> fst (search_file plain_python (text_file ''notes.txt'' three_lines) ''AB'' False False) = 0"
proof -
  let ?f = "text_file ''notes.txt'' three_lines"
  have f: "?f = File ''notes.txt'' (Some three_lines) (Some three_lines)"
    by (simp add: text_file_def)
  have e: "extension plain_python ?f \<notin> set EXCLUDE_EXTENSIONS" by code_simp
  have z: "CHR 0x00 \<notin> set (take 1024 three_lines)" by code_simp
  have r: "readlines three_lines =
             [''ab ab'' @ [CHR 0x0A], ''xabab'' @ [CHR 0x0A], ''ab, ab.'' @ [CHR 0x0A]]"
    by code_simp
  have o1: "occurrences False ''ab'' (''ab ab'' @ [CHR 0x0A]) = [0, 3]" by code_simp
  have o2: "occurrences False ''ab'' (''xabab'' @ [CHR 0x0A]) = [1, 3]" by code_simp
  have o3: "occurrences False ''ab'' (''ab, ab.'' @ [CHR 0x0A]) = [0, 4]" by code_simp
  have k: "''ab'' \<noteq> [] \<and> CHR '','' \<notin> set ''ab'' \<and> strip plain_python ''ab'' = ''ab''"
    by code_simp
  have c: "search_pattern ab_config = Some ''ab'' \<and> \<not> is_regex ab_config
           \<and> ignore_case ab_config = False"
    by code_simp
  have tw: "\<forall>l \<in> {''ab ab'' @ [CHR 0x0A], ''xabab'' @ [CHR 0x0A], ''ab, ab.'' @ [CHR 0x0A]}.
              \<exists>i j. occurrences False ''ab'' l = [i, j] \<and> i + length ''ab'' \<le> j"
    using o1 o2 o3 by simp
  note t = content_match_counting [OF f e z, where k = "''ab''" and ic = False
      and ?l1.0 = "''ab ab'' @ [CHR 0x0A]" and ?l2.0 = "''xabab'' @ [CHR 0x0A]"
      and ?l3.0 = "''ab, ab.'' @ [CHR 0x0A]" and cfg = ab_config
      and pfx = "[]" and d = 0 and rest = "[]" and lines = "[]" and st = zero_stats]
  from t k r tw have six: "fst (search_file plain_python ?f ''ab'' False False) = 6"
    by blast
  from t k r tw c have "\<exists>l name_matched.
         walk_entries plain_python ab_config [] 0 [?f] [] zero_stats
           = walk_entries plain_python ab_config [] 0 [] ([] @ l)
               (zero_stats\<lparr>files := files zero_stats + 1,
                       name_matches := name_matches zero_stats + (if name_matched then 1 else 0),
                       content_matches := content_matches zero_stats + 1\<rparr>)"
    by blast
  then have w: "\<exists>l name_matched.
         walk_entries plain_python ab_config [] 0 [?f] [] zero_stats
           = Inr (l, zero_stats\<lparr>files := files zero_stats + 1,
                       name_matches := name_matches zero_stats + (if name_matched then 1 else 0),
                       content_matches := content_matches zero_stats + 1\<rparr>)"
    by simp
  have a: "is_ascii ''AB'' \<and> is_ascii three_lines" by code_simp
  have p1: "occurrences True ''AB'' (''ab ab'' @ [CHR 0x0A]) = [0, 3]" by code_simp
  have p2: "occurrences True ''AB'' (''xabab'' @ [CHR 0x0A]) = [1, 3]" by code_simp
  have p3: "occurrences True ''AB'' (''ab, ab.'' @ [CHR 0x0A]) = [0, 4]" by code_simp
  have k': "''AB'' \<noteq> [] \<and> CHR '','' \<notin> set ''AB'' \<and> strip plain_python ''AB'' = ''AB''"
    by code_simp
  have tw': "\<forall>l \<in> {''ab ab'' @ [CHR 0x0A], ''xabab'' @ [CHR 0x0A], ''ab, ab.'' @ [CHR 0x0A]}.
              \<exists>i j. occurrences True ''AB'' l = [i, j] \<and> i + length ''AB'' \<le> j"
    using p1 p2 p3 by simp
  note t' = content_match_counting [OF f e z, where k = "''AB''" and ic = True
      and ?l1.0 = "''ab ab'' @ [CHR 0x0A]" and ?l2.0 = "''xabab'' @ [CHR 0x0A]"
      and ?l3.0 = "''ab, ab.'' @ [CHR 0x0A]"]
  from t' k' r tw' a have six': "fst (search_file plain_python ?f ''AB'' False True) = 6"
    by blast
  have none: "fst (search_file plain_python ?f ''AB'' False False) = 0" by code_simp
  show ?thesis using r o1 o2 o3 six w a p1 p2 p3 six' none by blast
qed

subsection \<open>Comma-separated keywords\<close>

lemma lower_char_newline: "lower_char c = CHR 0x0A \<longleftrightarrow> c = CHR 0x0A"
proof
  assume a: "lower_char c = CHR 0x0A"
  show "c = CHR 0x0A"
  proof (cases "65 \<le> (of_char c :: nat) \<and> (of_char c :: nat) \<le> 90")
    case False
    with a show ?thesis by (simp add: lower_char_def Let_def)
  next
    case True
    with a have "char_of ((of_char c :: nat) + 32) = CHR 0x0A"
      by (simp add: lower_char_def Let_def)
    then have "(of_char (char_of ((of_char c :: nat) + 32) :: char) :: nat) = of_char (CHR 0x0A)"
      by simp
    with True show ?thesis by (simp add: of_char_of)
  qed
next
  assume "c = CHR 0x0A"
  then show "lower_char c = CHR 0x0A" by (simp add: lower_char_def Let_def)
qed

lemma newline_lower_char: "CHR 0x0A = lower_char c \<longleftrightarrow> c = CHR 0x0A"
  using lower_char_newline [of c] by auto

lemma newline_in_fold_case: "CHR 0x0A \<in> set (fold_case ic s) \<longleftrightarrow> CHR 0x0A \<in> set s"
  by (cases ic) (simp_all add: fold_case_def ascii_lower_def image_iff newline_lower_char)

lemma matches_at_newline:
  assumes "CHR 0x0A \<notin> set k"
  shows "matches_at ic k (a @ CHR 0x0A # b) \<longleftrightarrow> length k \<le> length a \<and> matches_at ic k a"
proof (cases "length k \<le> length a")
  case True
  then show ?thesis by (simp add: matches_at_def)
next
  case False
  have "\<not> matches_at ic k (a @ CHR 0x0A # b)"
  proof
    assume m: "matches_at ic k (a @ CHR 0x0A # b)"
    from False have "CHR 0x0A \<in> set (take (length k) (a @ CHR 0x0A # b))"
      by (cases "length k - length a") auto
    then have "CHR 0x0A \<in> set (fold_case ic (take (length k) (a @ CHR 0x0A # b)))"
      by (simp add: newline_in_fold_case)
    with m have "CHR 0x0A \<in> set (fold_case ic k)" by (simp add: matches_at_def)
    with assms show False by (simp add: newline_in_fold_case)
  qed
  with False show ?thesis by simp
qed

lemma findall_literal_newline:
  assumes "k \<noteq> []" and "CHR 0x0A \<notin> set k"
  shows "findall_literal ic k (a @ CHR 0x0A # b) =
           findall_literal ic k (a @ [CHR 0x0A]) @ findall_literal ic k b"
proof (induction a rule: length_induct)
  case (1 a)
  show ?case
  proof (cases a)
    case Nil
    have "\<not> matches_at ic k (CHR 0x0A # b)" "\<not> matches_at ic k [CHR 0x0A]"
      using matches_at_newline [OF assms(2), of ic "[]" b]
        matches_at_newline [OF assms(2), of ic "[]" "[]"] assms(1) by auto
    then show ?thesis
      using assms(1) Nil
      by (simp add: findall_literal.simps [of ic k "CHR 0x0A # b"]
            findall_literal.simps [of ic k "[CHR 0x0A]"] findall_literal.simps [of ic k "[]"])
  next
    case (Cons c a')
    show ?thesis
    proof (cases "length k \<le> length a \<and> matches_at ic k a")
      case True
      then have m: "matches_at ic k (a @ CHR 0x0A # b)" "matches_at ic k (a @ [CHR 0x0A])"
        using matches_at_newline [OF assms(2), of ic a b]
          matches_at_newline [OF assms(2), of ic a "[]"] by auto
      have sh: "length (drop (length k) a) < length a" using assms(1) Cons by simp
      from 1 sh have ih: "findall_literal ic k (drop (length k) a @ CHR 0x0A # b) =
           findall_literal ic k (drop (length k) a @ [CHR 0x0A]) @ findall_literal ic k b"
        by blast
      show ?thesis
        using m True assms(1) ih
        by (simp add: findall_literal.simps [of ic k "a @ CHR 0x0A # b"]
              findall_literal.simps [of ic k "a @ [CHR 0x0A]"])
    next
      case False
      then have m: "\<not> matches_at ic k (a @ CHR 0x0A # b)" "\<not> matches_at ic k (a @ [CHR 0x0A])"
        using matches_at_newline [OF assms(2), of ic a b]
          matches_at_newline [OF assms(2), of ic a "[]"] by auto
      from 1 Cons have ih: "findall_literal ic k (a' @ CHR 0x0A # b) =
           findall_literal ic k (a' @ [CHR 0x0A]) @ findall_literal ic k b"
        by simp
      have tl: "tl (a @ CHR 0x0A # b) = a' @ CHR 0x0A # b" "tl (a @ [CHR 0x0A]) = a' @ [CHR 0x0A]"
        using Cons by simp_all
      show ?thesis
        using m assms(1) ih
        by (simp add: findall_literal.simps [of ic k "a @ CHR 0x0A # b"]
              findall_literal.simps [of ic k "a @ [CHR 0x0A]"] tl)
    qed
  qed
qed

lemma readlines_no_newline:
  "CHR 0x0A \<notin> set a \<Longrightarrow> readlines a = (if a = [] then [] else [a])"
  by (induction a) auto

lemma readlines_first_line:
  "CHR 0x0A \<notin> set a \<Longrightarrow> readlines (a @ CHR 0x0A # b) = (a @ [CHR 0x0A]) # readlines b"
  by (induction a) auto

lemma count_by_lines:
  assumes "k \<noteq> []" and "CHR 0x0A \<notin> set k"
  shows "sum_list (map (\<lambda>l. length (findall_literal ic k l)) (readlines t))
           = length (findall_literal ic k t)"
proof (induction t rule: length_induct)
  case (1 t)
  show ?case
  proof (cases "CHR 0x0A \<in> set t")
    case False
    then show ?thesis
      using assms(1) by (simp add: readlines_no_newline findall_literal.simps [of ic k "[]"])
  next
    case True
    then obtain a b where t: "t = a @ CHR 0x0A # b" and a: "CHR 0x0A \<notin> set a"
      by (meson split_list_first)
    have "length b < length t" using t by simp
    with 1 have ih: "sum_list (map (\<lambda>l. length (findall_literal ic k l)) (readlines b))
           = length (findall_literal ic k b)"
      by blast
    show ?thesis
      by (simp add: t readlines_first_line [OF a] ih findall_literal_newline [OF assms, of ic a b])
  qed
qed



lemma findall_literal_absent:
  assumes "k \<noteq> []" and "occurrences ic k s = []"
  shows "findall_literal ic k s = []"
proof (rule findall_literal_none [OF assms(1)])
  fix p
  show "\<not> matches_at ic k (drop p s)"
    using set_occurrences [OF assms(1), of p ic s] assms(2) by simp
qed

lemma split_on_not_Nil: "split_on d s \<noteq> []"
  by (induction s) (auto split: list.splits)

lemma join_Cons_Cons: "ps \<noteq> [] \<Longrightarrow> join sep ((c # p) # ps) = c # join sep (p # ps)"
  by (cases ps) auto

lemma join_split_on: "join [d] (split_on d s) = s"
proof (induction s)
  case Nil
  show ?case by simp
next
  case (Cons c cs)
  obtain p ps where sp: "split_on d cs = p # ps"
    using split_on_not_Nil [of d cs] by (cases "split_on d cs") auto
  show ?case
  proof (cases "c = d")
    case True
    with Cons sp show ?thesis by simp
  next
    case False
    with Cons sp show ?thesis by (cases ps) auto
  qed
qed

lemma split_on_pieces: "x \<in> set (split_on d s) \<Longrightarrow> d \<notin> set x"
  by (induction s arbitrary: x) (auto split: if_splits list.splits)

lemma count_in_lines:
  assumes "k \<noteq> []" and "CHR 0x0A \<notin> set k" and "ic \<longrightarrow> is_ascii k \<and> is_ascii t"
  shows "sum_list (map (\<lambda>l. length (findall (literal_pattern py ic k) l)) (readlines t))
           = length (findall_literal ic k t)"
proof -
  have "map (\<lambda>l. length (findall (literal_pattern py ic k) l)) (readlines t)
          = map (\<lambda>l. length (findall_literal ic k l)) (readlines t)"
  proof (rule map_cong [OF refl])
    fix l assume "l \<in> set (readlines t)"
    with assms(3) have "\<not> ic \<or> (is_ascii k \<and> is_ascii l)" using readlines_ascii by blast
    then show "length (findall (literal_pattern py ic k) l) = length (findall_literal ic k l)"
      by (simp add: findall_literal_pattern)
  qed
  then have "sum_list (map (\<lambda>l. length (findall (literal_pattern py ic k) l)) (readlines t))
          = sum_list (map (\<lambda>l. length (findall_literal ic k l)) (readlines t))"
    by (rule arg_cong)
  also have "\<dots> = length (findall_literal ic k t)"
    by (rule count_by_lines [OF assms(1,2)])
  finally show ?thesis .
qed

text \<open>
  Claim C5. In non-regex mode the pattern is split at the commas: the pieces, joined
  by commas, are the pattern, and no piece holds a comma. The keywords are the pieces
  after \<open>strip\<close>, the empty ones left out, in their order. Each keyword is compiled
  as a literal, which never fails and, without \<open>ignore_case\<close>, matches the text of the
  keyword and nothing else; the count of \<open>search_file\<close> is the sum of the matches of
  every keyword on every line. For the pattern \<open>foo,bar\<close> and a file that is read,
  whose text holds \<open>bar\<close> at exactly one position and \<open>foo\<close> at none,
  \<open>search_file\<close> returns the count 1 (under \<open>ignore_case\<close>: for ASCII text, the
  letters folded).
\<close>

theorem comma_split_keywords:
  assumes "filepath = File nm (Some bs) (Some txt)"
    and "extension py filepath \<notin> set EXCLUDE_EXTENSIONS"
    and "CHR 0x00 \<notin> set (take 1024 bs)"
  shows "join '','' (split_on (CHR '','') pat) = pat
       \<and> (\<forall>x \<in> set (split_on (CHR '','') pat). CHR '','' \<notin> set x)
       \<and> split_keywords py pat =
           map (strip py) (filter (\<lambda>x. strip py x \<noteq> []) (split_on (CHR '','') pat))
       \<and> compile_all py False ic (split_keywords py pat) =
           Some (map (literal_pattern py ic) (split_keywords py pat))
       \<and> findall (literal_pattern py False k) = findall_literal False k
       \<and> fst (search_file py filepath pat False ic) =
           sum_list (map (\<lambda>line. sum_list (map (\<lambda>k. length (findall (literal_pattern py ic k) line))
                                              (split_keywords py pat)))
                      (readlines txt))
       \<and> split_keywords py ''foo,bar'' = [''foo'', ''bar'']
       \<and> split_keywords py ''foo, bar ,,baz'' = [''foo'', ''bar'', ''baz'']
       \<and> ((ic \<longrightarrow> is_ascii txt) \<and> occurrences ic ''bar'' txt = [q]
            \<and> occurrences ic ''foo'' txt = [] \<longrightarrow>
            fst (search_file py filepath ''foo,bar'' False ic) = 1)"
proof (intro conjI impI ballI)
  show "join '','' (split_on (CHR '','') pat) = pat" by (rule join_split_on)
  show "\<And>x. x \<in> set (split_on (CHR '','') pat) \<Longrightarrow> CHR '','' \<notin> set x"
    by (rule split_on_pieces)
  show "split_keywords py pat =
           map (strip py) (filter (\<lambda>x. strip py x \<noteq> []) (split_on (CHR '','') pat))"
    by (simp add: split_keywords_def)
  show "compile_all py False ic (split_keywords py pat) =
           Some (map (literal_pattern py ic) (split_keywords py pat))"
    by (rule compile_all_literal)
  show "findall (literal_pattern py False k) = findall_literal False k"
    by (simp add: literal_pattern_def)
  show "fst (search_file py filepath pat False ic) =
           sum_list (map (\<lambda>line. sum_list (map (\<lambda>k. length (findall (literal_pattern py ic k) line))
                                              (split_keywords py pat)))
                      (readlines txt))"
    by (rule search_file_literal_count [OF assms])
  show sk: "split_keywords py ''foo,bar'' = [''foo'', ''bar'']" by code_simp
  show "split_keywords py ''foo, bar ,,baz'' = [''foo'', ''bar'', ''baz'']" by code_simp
  assume o: "(ic \<longrightarrow> is_ascii txt) \<and> occurrences ic ''bar'' txt = [q]
            \<and> occurrences ic ''foo'' txt = []"
  have af: "is_ascii ''foo''" and ab: "is_ascii ''bar''" by code_simp+
  have nf: "length (findall_literal ic ''foo'' txt) = 0"
    using o findall_literal_absent [of "''foo''" ic "txt"] by simp
  have ob: "length (findall_literal ic ''bar'' txt) = 1"
    using o findall_literal_once [of "''bar''" ic "txt" q] by simp
  have "fst (search_file py filepath ''foo,bar'' False ic) =
          sum_list (map (\<lambda>l. length (findall (literal_pattern py ic ''foo'') l)) (readlines txt))
          + sum_list (map (\<lambda>l. length (findall (literal_pattern py ic ''bar'') l)) (readlines txt))"
    by (simp add: search_file_literal_count [OF assms] sk sum_list_addf)
  also have "\<dots> = length (findall_literal ic ''foo'' txt) + length (findall_literal ic ''bar'' txt)"
    using o af ab by (simp add: count_in_lines)
  finally show "fst (search_file py filepath ''foo,bar'' False ic) = 1"
    using nf ob by simp
qed


theorem comma_split_keywords_witness:
  "occurrences False ''bar'' bar_text = [6]
   \<and> occurrences False ''foo'' bar_text = []
   \<and> length (readlines bar_text) = 3
   \<and> split_on (CHR '','') '' foo ,, bar, '' = ['' foo '', [], '' bar'', '' '']
   \<and> join '','' ['' foo '', [], '' bar'', '' ''] = '' foo ,, bar, ''
   \<and> split_keywords plain_python '' foo ,, bar, '' = [''foo'', ''bar'']
   \<and> sum_list (map (\<lambda>line. sum_list (map (\<lambda>k. length (findall (literal_pattern plain_python False k) line))
                                        (split_keywords plain_python '' foo ,, bar, '')))
                (readlines bar_text)) = 1
   \<and> fst (search_file plain_python (text_file ''notes.txt'' bar_text) ''foo,bar'' False False) = 1
   \<and> fst (search_file plain_python (text_file ''notes.txt'' bar_text) ''foo'' False False) = 0
   \<and> is_ascii bar_text
   \<and> occurrences True ''bar'' bar_text = [6]
   \<and> occurrences True ''foo'' bar_text = []
   \<and> fst (search_file plain_python (text_file ''notes.txt'' bar_text) ''foo,bar'' False True) = 1
   \<and> fst (search_file plain_python (text_file ''notes.txt'' ''axb a.b'') ''a.b'' False False) = 1"
proof -
  let ?f = "text_file ''notes.txt'' bar_text"
  have f: "?f = File ''notes.txt'' (Some bar_text) (Some bar_text)"
    by (simp add: text_file_def)
  have e: "extension plain_python ?f \<notin> set EXCLUDE_EXTENSIONS" by code_simp
  have z: "CHR 0x00 \<notin> set (take 1024 bar_text)" by code_simp
  have b: "occurrences False ''bar'' bar_text = [6]" by code_simp
  have n: "occurrences False ''foo'' bar_text = []" by code_simp
  have r: "length (readlines bar_text) = 3" by code_simp
  have sp: "split_on (CHR '','') '' foo ,, bar, '' = ['' foo '', [], '' bar'', '' '']"
    by code_simp
  have s: "split_keywords plain_python '' foo ,, bar, '' = [''foo'', ''bar'']" by code_simp
  have o: "fst (search_file plain_python ?f ''foo'' False False) = 0" by code_simp
  have m: "fst (search_file plain_python (text_file ''notes.txt'' ''axb a.b'') ''a.b'' False False) = 1"
    by code_simp
  have a: "is_ascii bar_text" by code_simp
  have b': "occurrences True ''bar'' bar_text = [6]" by code_simp
  have n': "occurrences True ''foo'' bar_text = []" by code_simp
  note t = comma_split_keywords [OF f e z, where ic = False and q = 6
      and pat = "'' foo ,, bar, ''"]
  note t' = comma_split_keywords [OF f e z, where ic = True and q = 6]
  from t b n have one: "fst (search_file plain_python ?f ''foo,bar'' False False) = 1"
    by blast
  from t' a b' n' have one': "fst (search_file plain_python ?f ''foo,bar'' False True) = 1"
    by blast
  from t sp have j: "join '','' ['' foo '', [], '' bar'', '' ''] = '' foo ,, bar, ''"
    by simp
  have "fst (search_file plain_python ?f '' foo ,, bar, '' False False) = 1"
    by code_simp
  with t have c: "sum_list (map (\<lambda>line. sum_list (map (\<lambda>k. length (findall (literal_pattern plain_python False k) line))
                                        (split_keywords plain_python '' foo ,, bar, '')))
                (readlines bar_text)) = 1"
    by simp
  show ?thesis using b n r sp j s c one o a b' n' one' m by blast
qed

end
